theory Spec2Isabelle
  imports Main "HOL-Library.Word" "HOL-Library.Sublist"
begin

section \<open>JavaScript strings\<close>

text \<open>
  A JavaScript string is a sequence of 16-bit code units. String literals of the script
  are written with \<open>js\<close>, which maps every character of an ASCII literal to its
  code unit.
\<close>

type_synonym jschar = "16 word"
type_synonym jsstring = "jschar list"

definition js :: "string \<Rightarrow> jsstring" where
  "js s = map of_char s"

text \<open>
  \<open>String.prototype.trim\<close> strips the ECMAScript WhiteSpace and LineTerminator code
  points from both ends: TAB, LF, VT, FF, CR, SP, NBSP, U+1680, U+2000 to U+200A, U+2028,
  U+2029, U+202F, U+205F, U+3000 and U+FEFF.
\<close>

definition isWhiteSpace :: "jschar \<Rightarrow> bool" where
  "isWhiteSpace c \<longleftrightarrow>
     (0x0009 \<le> c \<and> c \<le> 0x000D) \<or> c = 0x0020 \<or> c = 0x00A0 \<or> c = 0x1680 \<or>
     (0x2000 \<le> c \<and> c \<le> 0x200A) \<or> c = 0x2028 \<or> c = 0x2029 \<or> c = 0x202F \<or>
     c = 0x205F \<or> c = 0x3000 \<or> c = 0xFEFF"

definition trim :: "jsstring \<Rightarrow> jsstring" where
  "trim s = rev (dropWhile isWhiteSpace (rev (dropWhile isWhiteSpace s)))"

section \<open>Regular expressions with backtracking\<close>

text \<open>
  The fragment of the regular expression syntax that the script uses: literal text, a
  character class given by its ranges, sequence, alternation \<open>a|b\<close>, the greedy
  quantifiers \<open>a?\<close> and \<open>a+\<close>, and a capturing group. A non-capturing group
  \<open>(?:a)\<close> is only bracketing and is the term \<open>a\<close> itself.
\<close>

datatype regex =
    RLit jsstring
  | RClass "(jschar \<times> jschar) list"
  | RSeq regex regex
  | RAlt regex regex
  | ROpt regex
  | RPlus regex
  | RGroup regex

definition inClass :: "(jschar \<times> jschar) list \<Rightarrow> jschar \<Rightarrow> bool" where
  "inClass rs c = list_ex (\<lambda>(lo, hi). lo \<le> c \<and> c \<le> hi) rs"

text \<open>
  A matcher state is the text still to be read and the content of capture group 1
  (\<open>None\<close> while the group has not taken part). \<open>rmatch r st\<close> lists, in the order in
  which a backtracking engine tries them, every state in which \<open>r\<close> can finish when
  started in \<open>st\<close>: the first alternative before the second, one more iteration of a
  greedy quantifier before stopping.
\<close>

type_synonym mstate = "jsstring \<times> jsstring option"

fun rmatch :: "regex \<Rightarrow> mstate \<Rightarrow> mstate list" where
  "rmatch (RLit p) (s, cap) = (if prefix p s then [(drop (length p) s, cap)] else [])"
| "rmatch (RClass rs) (s, cap) =
     (case s of [] \<Rightarrow> [] | c # t \<Rightarrow> if inClass rs c then [(t, cap)] else [])"
| "rmatch (RSeq a b) (s, cap) = concat (map (rmatch b) (rmatch a (s, cap)))"
| "rmatch (RAlt a b) (s, cap) = rmatch a (s, cap) @ rmatch b (s, cap)"
| "rmatch (ROpt a) (s, cap) = rmatch a (s, cap) @ [(s, cap)]"
| "rmatch (RPlus a) (s, cap) =
     concat (map (\<lambda>(r, cap'). (if length r < length s then rmatch (RPlus a) (r, cap') else [])
                                 @ [(r, cap')])
       (rmatch a (s, cap)))"
| "rmatch (RGroup a) (s, cap) =
     map (\<lambda>(r, _). (r, Some (take (length s - length r) s))) (rmatch a (s, cap))"

text \<open>
  The result of a successful match is the array \<open>[match[0], match[1]]\<close>: the matched
  text and capture group 1. \<open>match_at\<close> is the attempt at one start position (the
  first state of the backtracking order wins), \<open>regex_exec\<close> tries the start positions
  from left to right, the end of the string included, and so is \<open>s.match(r)\<close> for a
  regular expression without the global flag; \<open>None\<close> is \<open>null\<close>.
\<close>

definition match_at :: "regex \<Rightarrow> jsstring \<Rightarrow> (jsstring \<times> jsstring option) option" where
  "match_at r s =
     (case rmatch r (s, None) of
        [] \<Rightarrow> None
      | (rest, cap) # _ \<Rightarrow> Some (take (length s - length rest) s, cap))"

fun regex_exec :: "regex \<Rightarrow> jsstring \<Rightarrow> (jsstring \<times> jsstring option) option" where
  "regex_exec r [] = match_at r []"
| "regex_exec r (c # t) =
     (case match_at r (c # t) of Some m \<Rightarrow> Some m | None \<Rightarrow> regex_exec r t)"

subsection \<open>The regular expression of \<open>generateLink\<close>\<close>

text \<open>
  \<^verbatim>\<open>/(?:https?:\/\/(?:drive\.google\.com\/(?:file\/d\/|open\?id=)|docs\.google\.com\/document\/d\/))([a-zA-Z0-9_-]+)/\<close>
\<close>

definition fileIdClass :: "(jschar \<times> jschar) list" where
  "fileIdClass =
     [(of_char CHR ''a'', of_char CHR ''z''), (of_char CHR ''A'', of_char CHR ''Z''),
      (of_char CHR ''0'', of_char CHR ''9''), (of_char CHR ''_'', of_char CHR ''_''),
      (of_char CHR ''-'', of_char CHR ''-'')]"

definition hostPathRegex :: regex where
  "hostPathRegex =
     RAlt (RSeq (RLit (js ''drive.google.com/''))
                (RAlt (RLit (js ''file/d/'')) (RLit (js ''open?id=''))))
          (RLit (js ''docs.google.com/document/d/''))"

definition linkPrefixRegex :: regex where
  "linkPrefixRegex =
     RSeq (RLit (js ''http'')) (RSeq (ROpt (RLit (js ''s''))) (RSeq (RLit (js ''://'')) hostPathRegex))"

definition driveLinkRegex :: regex where
  "driveLinkRegex = RSeq linkPrefixRegex (RGroup (RPlus (RClass fileIdClass)))"

definition idchar :: "jschar \<Rightarrow> bool" where
  "idchar c = inClass fileIdClass c"

section \<open>The page\<close>

text \<open>
  The state of the page as far as the script reads or writes it. A field \<open>x_p\<close> is the
  property \<open>p\<close> of the element that the script holds in \<open>x\<close>: the value of an input
  field, the text, the \<open>data-type\<close> attribute and the \<open>display\<close> style of the status
  element and whether its class list holds \<open>show\<close>, the three styles of the copy button,
  whether the class list of the body holds \<open>dark-theme\<close> and that of the generate button
  \<open>loading\<close>. The other fields are the script's variable \<open>statusMessageTimeoutId\<close>
  (\<open>None\<close> is \<open>undefined\<close>), the browser's local storage, clipboard, clock (in
  milliseconds) and pending timers (identifier, time due, callback), and a log of the calls
  that change nothing else in this state.
\<close>

datatype callback =
    DismissStatus
  | ClearStatus
  | ResumeGenerateLink jsstring

type_synonym timer = "nat \<times> nat \<times> callback"

datatype call =
    CallStartButtonLoading
  | CallStopButtonLoading
  | CallMatch jsstring
  | CallFocus
  | CallSelect
  | CallExecCommandCopy
  | CallConsoleError
  | CallRemoveAllRanges

record ui =
  driveLinkInput_value :: jsstring
  outputLinkInput_value :: jsstring
  outputLinkInput_focused :: bool
  outputLinkInput_selected :: bool
  statusMessage_textContent :: jsstring
  statusMessage_dataType :: "jsstring option"
  statusMessage_show :: bool
  statusMessage_display :: jsstring
  copyButton_pointerEvents :: jsstring
  copyButton_opacity :: jsstring
  copyButton_cursor :: jsstring
  themeToggle_checked :: bool
  body_darkTheme :: bool
  generateButton_loading :: bool
  localStorage :: "jsstring \<Rightarrow> jsstring option"
  clipboard :: jsstring
  statusMessageTimeoutId :: "nat option"
  timers :: "timer list"
  nextTimerId :: nat
  now :: nat
  calls :: "call list"

definition logCall :: "call \<Rightarrow> ui \<Rightarrow> ui" where
  "logCall c st = st\<lparr>calls := calls st @ [c]\<rparr>"

subsection \<open>Timers\<close>

text \<open>
  \<open>setTimeout\<close> registers a callback that is due after the delay (in milliseconds) and
  returns its fresh identifier; \<open>clearTimeout\<close> removes the pending timer with the given
  identifier and does nothing for \<open>undefined\<close> or for a timer that has already run.
\<close>

definition setTimeout :: "callback \<Rightarrow> nat \<Rightarrow> ui \<Rightarrow> nat \<times> ui" where
  "setTimeout cb delay st =
     (nextTimerId st,
      st\<lparr>timers := timers st @ [(nextTimerId st, now st + delay, cb)],
         nextTimerId := Suc (nextTimerId st)\<rparr>)"

definition clearTimeout :: "nat option \<Rightarrow> ui \<Rightarrow> ui" where
  "clearTimeout tid st = st\<lparr>timers := filter (\<lambda>t. Some (fst t) \<noteq> tid) (timers st)\<rparr>"

subsection \<open>Theme management\<close>

definition applySavedTheme :: "ui \<Rightarrow> ui" where
  "applySavedTheme st =
     (let savedTheme = localStorage st (js ''theme'') in
      if savedTheme = Some (js ''dark'')
      then st\<lparr>body_darkTheme := True, themeToggle_checked := True\<rparr>
      else st\<lparr>body_darkTheme := False, themeToggle_checked := False\<rparr>)"

text \<open>The listener of the toggle's \<open>change\<close> event.\<close>

definition themeToggle_change :: "ui \<Rightarrow> ui" where
  "themeToggle_change st =
     (if themeToggle_checked st
      then st\<lparr>body_darkTheme := True,
              localStorage := (localStorage st)(js ''theme'' \<mapsto> js ''dark'')\<rparr>
      else st\<lparr>body_darkTheme := False,
              localStorage := (localStorage st)(js ''theme'' \<mapsto> js ''light'')\<rparr>)"

text \<open>
  The user sets the checkbox: the browser updates \<open>checked\<close> and then dispatches
  \<open>change\<close>.
\<close>

definition userSetsThemeToggle :: "bool \<Rightarrow> ui \<Rightarrow> ui" where
  "userSetsThemeToggle c st = themeToggle_change (st\<lparr>themeToggle_checked := c\<rparr>)"

subsection \<open>Status message\<close>

definition displayStatusMessage :: "jsstring \<Rightarrow> jsstring \<Rightarrow> ui \<Rightarrow> ui" where
  "displayStatusMessage message type st =
     (let st1 = clearTimeout (statusMessageTimeoutId st) st;
          st2 = st1\<lparr>statusMessage_textContent := message,
                    statusMessage_dataType := Some type,
                    statusMessage_show := True,
                    statusMessage_display := js ''block''\<rparr>;
          (tid, st3) = setTimeout DismissStatus 5000 st2
      in st3\<lparr>statusMessageTimeoutId := Some tid\<rparr>)"

subsection \<open>Copy button and generate button\<close>

definition toggleCopyButtonState :: "ui \<Rightarrow> ui" where
  "toggleCopyButtonState st =
     (let isDisabled = (outputLinkInput_value st = []) in
      st\<lparr>copyButton_pointerEvents := (if isDisabled then js ''none'' else js ''auto''),
         copyButton_opacity := (if isDisabled then js ''0.5'' else js ''1''),
         copyButton_cursor := (if isDisabled then js ''not-allowed'' else js ''pointer'')\<rparr>)"

definition startButtonLoading :: "ui \<Rightarrow> ui" where
  "startButtonLoading st = logCall CallStartButtonLoading (st\<lparr>generateButton_loading := True\<rparr>)"

definition stopButtonLoading :: "ui \<Rightarrow> ui" where
  "stopButtonLoading st = logCall CallStopButtonLoading (st\<lparr>generateButton_loading := False\<rparr>)"

subsection \<open>Link generation\<close>

definition directLink :: "jsstring \<Rightarrow> jsstring" where
  "directLink fileId = js ''https://drive.google.com/uc?export=download&id='' @ fileId"

text \<open>
  \<open>generateLink\<close> is an \<open>async\<close> function with one \<open>await\<close>, on a promise that a
  1200 ms timer resolves. \<open>generateLink\<close> below is the part that runs when the function
  is called: it either returns (empty input) or registers the timer whose callback
  continues the function with the local variable \<open>input\<close>. \<open>generateLink_resume\<close> is
  that continuation; it runs in whatever state the page is in when the timer fires.
\<close>

definition generateLink :: "ui \<Rightarrow> ui" where
  "generateLink st =
     (let input = trim (driveLinkInput_value st);
          st1 = st\<lparr>outputLinkInput_value := [],
                   statusMessage_show := False,
                   statusMessage_textContent := [],
                   statusMessage_display := js ''none'',
                   statusMessage_dataType := None\<rparr>;
          st2 = toggleCopyButtonState st1
      in if input = []
         then displayStatusMessage (js ''Please enter a Google Drive link.'') (js ''error'') st2
         else snd (setTimeout (ResumeGenerateLink input) 1200 (startButtonLoading st2)))"

definition generateLink_resume :: "jsstring \<Rightarrow> ui \<Rightarrow> ui" where
  "generateLink_resume input st =
     (let match = regex_exec driveLinkRegex input;
          st1 = logCall (CallMatch input) st;
          st2 = (case match of
                   Some (m0, Some fileId) \<Rightarrow>
                     if fileId \<noteq> []
                     then (let st3 = st1\<lparr>outputLinkInput_value := directLink fileId\<rparr>;
                               st4 = displayStatusMessage
                                       (js ''Direct download link generated successfully!'')
                                       (js ''success'') st3
                           in logCall CallSelect
                                (logCall CallFocus
                                   (st4\<lparr>outputLinkInput_focused := True, outputLinkInput_selected := True\<rparr>)))
                     else displayStatusMessage
                            (js ''Invalid Google Drive link format. Please ensure it's a valid file link.'')
                            (js ''error'') st1
                 | _ \<Rightarrow>
                     displayStatusMessage
                       (js ''Invalid Google Drive link format. Please ensure it's a valid file link.'')
                       (js ''error'') st1)
      in toggleCopyButtonState (stopButtonLoading st2))"

subsection \<open>Copy to clipboard\<close>

text \<open>
  What \<open>document.execCommand("copy")\<close> does is the browser's choice: it copies the
  selection and returns \<open>true\<close>, returns \<open>false\<close> without copying, or throws.
\<close>

datatype exec_outcome = Copied | Refused | Threw

definition copyToClipboard :: "exec_outcome \<Rightarrow> ui \<Rightarrow> ui" where
  "copyToClipboard outcome st =
     (if outputLinkInput_value st = []
      then displayStatusMessage (js ''No link to copy!'') (js ''info'') st
      else
        (let st1 = logCall CallSelect (st\<lparr>outputLinkInput_selected := True\<rparr>);
             st2 = logCall CallExecCommandCopy st1;
             st3 = (case outcome of
                      Copied \<Rightarrow>
                        displayStatusMessage (js ''Link copied to clipboard!'') (js ''success'')
                          (st2\<lparr>clipboard := outputLinkInput_value st2\<rparr>)
                    | Refused \<Rightarrow>
                        displayStatusMessage (js ''Link copied to clipboard!'') (js ''success'') st2
                    | Threw \<Rightarrow>
                        displayStatusMessage (js ''Failed to copy link. Please copy manually.'')
                          (js ''error'') (logCall CallConsoleError st2))
         in logCall CallRemoveAllRanges (st3\<lparr>outputLinkInput_selected := False\<rparr>)))"

subsection \<open>Page load and the event loop\<close>

text \<open>The listener of \<open>DOMContentLoaded\<close>.\<close>

definition onDOMContentLoaded :: "ui \<Rightarrow> ui" where
  "onDOMContentLoaded st = applySavedTheme (toggleCopyButtonState st)"

text \<open>
  What a timer does when it fires: the two nested callbacks of \<open>displayStatusMessage\<close>
  (the first removes the class \<open>show\<close> and starts the second, which clears the message
  400 ms later), and the continuation of \<open>generateLink\<close>.
\<close>

fun fire :: "callback \<Rightarrow> ui \<Rightarrow> ui" where
  "fire DismissStatus st = snd (setTimeout ClearStatus 400 (st\<lparr>statusMessage_show := False\<rparr>))"
| "fire ClearStatus st =
     st\<lparr>statusMessage_textContent := [],
        statusMessage_display := js ''none'',
        statusMessage_dataType := None\<rparr>"
| "fire (ResumeGenerateLink input) st = generateLink_resume input st"

text \<open>
  The pending timer that runs next: the one that is due first, and among timers due at
  the same time the one registered first (the list is in order of registration).
\<close>

fun earliest :: "timer list \<Rightarrow> timer option" where
  "earliest [] = None"
| "earliest (t # ts) =
     (case earliest ts of
        None \<Rightarrow> Some t
      | Some u \<Rightarrow> if fst (snd u) < fst (snd t) then Some u else Some t)"

definition timerWeight :: "timer \<Rightarrow> nat" where
  "timerWeight t = (case snd (snd t) of ResumeGenerateLink _ \<Rightarrow> 3 | DismissStatus \<Rightarrow> 2 | ClearStatus \<Rightarrow> 1)"

definition pendingWeight :: "ui \<Rightarrow> nat" where
  "pendingWeight st = sum_list (map timerWeight (timers st))"

lemma earliest_mem: "earliest ts = Some t \<Longrightarrow> t \<in> set ts"
  by (induction ts arbitrary: t) (auto split: option.splits if_splits)

lemma weight_filter_le: "sum_list (map timerWeight (filter P ts)) \<le> sum_list (map timerWeight ts)"
  by (induction ts) auto

lemma weight_remove:
  "t \<in> set ts \<Longrightarrow>
   sum_list (map timerWeight (filter (\<lambda>u. fst u \<noteq> fst t) ts)) + timerWeight t
     \<le> sum_list (map timerWeight ts)"
proof (induction ts)
  case Nil
  then show ?case by simp
next
  case (Cons u ts)
  show ?case
  proof (cases "fst u = fst t")
    case True
    with weight_filter_le [of "\<lambda>u. fst u \<noteq> fst t" ts] Cons show ?thesis
      by (cases "u = t") auto
  next
    case False
    with Cons show ?thesis by auto
  qed
qed

lemma pendingWeight_displayStatusMessage:
  "pendingWeight (displayStatusMessage m ty st) \<le> pendingWeight st + 2"
  using weight_filter_le [of "\<lambda>t. Some (fst t) \<noteq> statusMessageTimeoutId st" "timers st"]
  by (simp add: displayStatusMessage_def clearTimeout_def setTimeout_def pendingWeight_def
      timerWeight_def)

lemma pendingWeight_fire: "pendingWeight (fire cb st) + 1 \<le> pendingWeight st + timerWeight (i, d, cb)"
proof (cases cb)
  case DismissStatus
  then show ?thesis by (simp add: setTimeout_def pendingWeight_def timerWeight_def)
next
  case ClearStatus
  then show ?thesis by (simp add: pendingWeight_def timerWeight_def)
next
  case (ResumeGenerateLink input)
  have "pendingWeight (generateLink_resume input st) \<le> pendingWeight st + 2"
    using pendingWeight_displayStatusMessage [of _ _ "logCall (CallMatch input) st"]
      pendingWeight_displayStatusMessage
        [of _ _ "(logCall (CallMatch input) st)\<lparr>outputLinkInput_value := directLink fid\<rparr>" for fid]
    by (simp add: generateLink_resume_def stopButtonLoading_def toggleCopyButtonState_def
        logCall_def pendingWeight_def Let_def split: option.splits prod.splits)
  with ResumeGenerateLink show ?thesis by (simp add: timerWeight_def)
qed

text \<open>
  Time passes until \<open>T\<close>: the pending timers that are due by then fire in order, each
  at its own time; the timers they register take part.
\<close>

function run_until :: "nat \<Rightarrow> ui \<Rightarrow> ui" where
  "run_until T st =
     (case earliest (timers st) of
        None \<Rightarrow> st\<lparr>now := max (now st) T\<rparr>
      | Some (i, due, cb) \<Rightarrow>
          if due \<le> T
          then run_until T
                 (fire cb (st\<lparr>now := max (now st) due,
                             timers := filter (\<lambda>t. fst t \<noteq> i) (timers st)\<rparr>))
          else st\<lparr>now := max (now st) T\<rparr>)"
  by pat_completeness auto
termination
proof (relation "measure (\<lambda>(T, st). pendingWeight st)")
  show "wf (measure (\<lambda>(T, st). pendingWeight st))" by simp
next
  fix T :: nat and st :: ui and x2 :: timer and i :: nat and y :: "nat \<times> callback"
    and due :: nat and cb :: callback
  assume e: "earliest (timers st) = Some x2" and x2: "(i, y) = x2" and y: "(due, cb) = y"
  let ?st' = "st\<lparr>now := max (now st) due, timers := filter (\<lambda>t. fst t \<noteq> i) (timers st)\<rparr>"
  from e x2 y have "(i, due, cb) \<in> set (timers st)" by (auto dest: earliest_mem)
  then have "pendingWeight ?st' + timerWeight (i, due, cb) \<le> pendingWeight st"
    using weight_remove [of "(i, due, cb)" "timers st"] by (simp add: pendingWeight_def)
  with pendingWeight_fire [of cb ?st' i due]
  show "((T, fire cb ?st'), (T, st)) \<in> measure (\<lambda>(T, st). pendingWeight st)"
    by simp
qed

declare run_until.simps [simp del]

section \<open>Vocabulary of the properties\<close>

text \<open>
  The six texts that \<open>linkPrefixRegex\<close> accepts, in the order in which the engine tries
  them: the scheme \<open>https://\<close> or \<open>http://\<close> followed by one of the three host and
  path shapes.
\<close>

definition linkPrefixes :: "jsstring list" where
  "linkPrefixes =
     [js ''https://drive.google.com/file/d/'', js ''https://drive.google.com/open?id='',
      js ''https://docs.google.com/document/d/'', js ''http://drive.google.com/file/d/'',
      js ''http://drive.google.com/open?id='', js ''http://docs.google.com/document/d/'']"

text \<open>
  The attempt at one start position in closed form: the text starts with the prefix \<open>p\<close>
  and at least one character of the class follows; the match is the prefix with the whole
  run of class characters after it, and the run is capture group 1.
\<close>

definition fileIdAfter :: "jsstring \<Rightarrow> jsstring \<Rightarrow> (jsstring \<times> jsstring option) option" where
  "fileIdAfter p s =
     (if prefix p s \<and> takeWhile idchar (drop (length p) s) \<noteq> []
      then Some (p @ takeWhile idchar (drop (length p) s), Some (takeWhile idchar (drop (length p) s)))
      else None)"

text \<open>Comparison of texts up to the case of the ASCII letters.\<close>

definition toLowerASCII :: "jschar \<Rightarrow> jschar" where
  "toLowerASCII c = (if of_char CHR ''A'' \<le> c \<and> c \<le> of_char CHR ''Z'' then c + 32 else c)"

definition ciPrefix :: "jsstring \<Rightarrow> jsstring \<Rightarrow> bool" where
  "ciPrefix p t = prefix (map toLowerASCII p) (map toLowerASCII t)"

text \<open>
  The copy button is shown as the function \<open>toggleCopyButtonState\<close> sets it for the
  current output value.
\<close>

definition copyButtonReflectsOutput :: "ui \<Rightarrow> bool" where
  "copyButtonReflectsOutput st \<longleftrightarrow>
     copyButton_pointerEvents st = (if outputLinkInput_value st = [] then js ''none'' else js ''auto'') \<and>
     copyButton_opacity st = (if outputLinkInput_value st = [] then js ''0.5'' else js ''1'') \<and>
     copyButton_cursor st = (if outputLinkInput_value st = [] then js ''not-allowed'' else js ''pointer'')"

text \<open>
  A page for the closed examples: both fields empty, nothing styled, nothing stored, no
  timer pending. The markup of the page is not part of the script; the general theorems
  hold for every page state.
\<close>

definition emptyPage :: ui where
  "emptyPage =
     \<lparr>driveLinkInput_value = [], outputLinkInput_value = [], outputLinkInput_focused = False,
      outputLinkInput_selected = False, statusMessage_textContent = [],
      statusMessage_dataType = None, statusMessage_show = False, statusMessage_display = [],
      copyButton_pointerEvents = [], copyButton_opacity = [], copyButton_cursor = [],
      themeToggle_checked = False, body_darkTheme = False, generateButton_loading = False,
      localStorage = Map.empty, clipboard = [], statusMessageTimeoutId = None, timers = [],
      nextTimerId = 1, now = 0, calls = []\<rparr>"

text \<open>
  The states the page can be in: after the load listener has run (no timer is registered
  before it), and then after any sequence of the user typing into the input field,
  clicking generate, clicking copy, setting the theme toggle, and time passing.
\<close>

inductive reachable :: "ui \<Rightarrow> bool" where
  loaded: "timers st = [] \<Longrightarrow> reachable (onDOMContentLoaded st)"
| typed: "reachable st \<Longrightarrow> reachable (st\<lparr>driveLinkInput_value := v\<rparr>)"
| generate: "reachable st \<Longrightarrow> reachable (generateLink st)"
| copy: "reachable st \<Longrightarrow> reachable (copyToClipboard outcome st)"
| theme: "reachable st \<Longrightarrow> reachable (userSetsThemeToggle c st)"
| elapse: "reachable st \<Longrightarrow> reachable (run_until T st)"

text \<open>
  The pending timers have distinct identifiers, all below the next one to be given out.
\<close>

definition timersOk :: "ui \<Rightarrow> bool" where
  "timersOk st \<longleftrightarrow>
     distinct (map fst (timers st)) \<and> list_all (\<lambda>t. fst t < nextTimerId st) (timers st)"

text \<open>A call of \<open>generateLink\<close> is waiting for its continuation.\<close>

definition isResume :: "timer \<Rightarrow> bool" where
  "isResume t = (case snd (snd t) of ResumeGenerateLink _ \<Rightarrow> True | _ \<Rightarrow> False)"

definition generationPending :: "ui \<Rightarrow> bool" where
  "generationPending st = list_ex isResume (timers st)"

text \<open>
  The output value that the continuation of \<open>generateLink\<close> leaves for an input when it
  starts from an empty output value.
\<close>

definition generated :: "jsstring \<Rightarrow> jsstring" where
  "generated input =
     (case regex_exec driveLinkRegex input of
        Some (m0, Some fileId) \<Rightarrow> if fileId \<noteq> [] then directLink fileId else []
      | _ \<Rightarrow> [])"

text \<open>
  The two stages of one generation in the event loop: its timer is the only pending
  continuation and the output value is still empty; or no continuation is pending, the
  output value is written and the class \<open>loading\<close> is removed.
\<close>

definition waiting :: "timer \<Rightarrow> ui \<Rightarrow> bool" where
  "waiting ours s \<longleftrightarrow>
     ours \<in> set (timers s) \<and> (\<forall>t\<in>set (timers s). isResume t \<longrightarrow> t = ours) \<and>
     outputLinkInput_value s = []"

definition finished :: "jsstring \<Rightarrow> ui \<Rightarrow> bool" where
  "finished out s \<longleftrightarrow>
     \<not> generationPending s \<and> outputLinkInput_value s = out \<and> \<not> generateButton_loading s"

section \<open>The matcher of \<open>driveLinkRegex\<close>\<close>

lemma prefix_append_iff: "prefix (a @ b) s \<longleftrightarrow> prefix a s \<and> prefix b (drop (length a) s)"
  by (metis append_eq_conv_conj prefix_def prefixI append_assoc)

lemma hostPath_split:
  "js ''drive.google.com/file/d/'' = js ''drive.google.com/'' @ js ''file/d/''"
  "js ''drive.google.com/open?id='' = js ''drive.google.com/'' @ js ''open?id=''"
  by (simp_all add: js_def)

lemma rmatch_hostPathRegex:
  "rmatch hostPathRegex (s, cap) =
     concat (map (\<lambda>p. if prefix p s then [(drop (length p) s, cap)] else [])
       [js ''drive.google.com/file/d/'', js ''drive.google.com/open?id='',
        js ''docs.google.com/document/d/''])"
  unfolding hostPathRegex_def hostPath_split
  by (simp add: prefix_append_iff add.commute)

lemma linkPrefix_split:
  "js ''https://drive.google.com/file/d/'' = js ''http'' @ js ''s'' @ js ''://'' @ js ''drive.google.com/file/d/''"
  "js ''https://drive.google.com/open?id='' = js ''http'' @ js ''s'' @ js ''://'' @ js ''drive.google.com/open?id=''"
  "js ''https://docs.google.com/document/d/'' = js ''http'' @ js ''s'' @ js ''://'' @ js ''docs.google.com/document/d/''"
  "js ''http://drive.google.com/file/d/'' = js ''http'' @ js ''://'' @ js ''drive.google.com/file/d/''"
  "js ''http://drive.google.com/open?id='' = js ''http'' @ js ''://'' @ js ''drive.google.com/open?id=''"
  "js ''http://docs.google.com/document/d/'' = js ''http'' @ js ''://'' @ js ''docs.google.com/document/d/''"
  by (simp_all add: js_def)

lemma rmatch_linkPrefixRegex:
  "rmatch linkPrefixRegex (s, cap) =
     concat (map (\<lambda>p. if prefix p s then [(drop (length p) s, cap)] else []) linkPrefixes)"
  unfolding linkPrefixes_def linkPrefix_split linkPrefixRegex_def
  by (simp add: prefix_append_iff add.commute rmatch_hostPathRegex add.assoc add.left_commute)

lemma linkPrefixes_antichain:
  "list_all (\<lambda>p. list_all (\<lambda>q. prefix p q \<longrightarrow> p = q) linkPrefixes) linkPrefixes"
  by code_simp

lemma linkPrefixes_exclusive:
  assumes "p \<in> set linkPrefixes" "q \<in> set linkPrefixes" "prefix p s" "prefix q s"
  shows "p = q"
proof -
  from assms(3,4) have "prefix p q \<or> prefix q p"
    using prefix_same_cases by blast
  with assms(1,2) linkPrefixes_antichain show ?thesis
    unfolding list_all_iff by blast
qed

lemma linkPrefixes_distinct: "distinct linkPrefixes"
  by code_simp

lemma rmatch_plus_class_Nil: "rmatch (RPlus (RClass rs)) ([], cap) = []"
  by simp

lemma rmatch_plus_class_Cons:
  "rmatch (RPlus (RClass rs)) (c # t, cap) =
     (if inClass rs c then rmatch (RPlus (RClass rs)) (t, cap) @ [(t, cap)] else [])"
  by simp

lemma rmatch_plus_class_empty:
  "rmatch (RPlus (RClass rs)) (s, cap) = [] \<longleftrightarrow> takeWhile (inClass rs) s = []"
  by (cases s) (simp_all del: rmatch.simps add: rmatch_plus_class_Cons rmatch_plus_class_Nil)

lemma rmatch_plus_class_hd:
  "takeWhile (inClass rs) s \<noteq> [] \<Longrightarrow>
     hd (rmatch (RPlus (RClass rs)) (s, cap)) = (dropWhile (inClass rs) s, cap)"
proof (induction s)
  case Nil
  then show ?case by simp
next
  case (Cons c t)
  then have c: "inClass rs c" by (auto split: if_splits)
  show ?case
  proof (cases "takeWhile (inClass rs) t = []")
    case True
    then have "rmatch (RPlus (RClass rs)) (t, cap) = []"
      by (simp only: rmatch_plus_class_empty)
    moreover from True have "dropWhile (inClass rs) t = t"
      by (cases t) (auto split: if_splits)
    ultimately show ?thesis using c
      by (simp del: rmatch.simps add: rmatch_plus_class_Cons)
  next
    case False
    then have "rmatch (RPlus (RClass rs)) (t, cap) \<noteq> []"
      by (simp only: rmatch_plus_class_empty not_False_eq_True)
    then show ?thesis using c Cons.IH [OF False]
      by (simp del: rmatch.simps add: rmatch_plus_class_Cons)
  qed
qed

lemma take_length_dropWhile: "take (length s - length (dropWhile P s)) s = takeWhile P s"
  by (induction s) (auto simp: Suc_diff_le length_dropWhile_le)

lemma rmatch_group_plus_class:
  "(case rmatch (RGroup (RPlus (RClass fileIdClass))) (r, cap) of [] \<Rightarrow> None | x # _ \<Rightarrow> Some x) =
     (if takeWhile idchar r = [] then None else Some (dropWhile idchar r, Some (takeWhile idchar r)))"
proof (cases "takeWhile idchar r = []")
  case True
  then have "rmatch (RPlus (RClass fileIdClass)) (r, cap) = []"
    using rmatch_plus_class_empty [of fileIdClass r cap] by (simp add: idchar_def [abs_def])
  with True show ?thesis
    by (simp del: rmatch.simps(6))
next
  case False
  then have ne: "rmatch (RPlus (RClass fileIdClass)) (r, cap) \<noteq> []"
    using rmatch_plus_class_empty [of fileIdClass r cap] by (simp add: idchar_def [abs_def])
  from False have "hd (rmatch (RPlus (RClass fileIdClass)) (r, cap)) = (dropWhile idchar r, cap)"
    using rmatch_plus_class_hd [of fileIdClass r cap] by (simp add: idchar_def [abs_def])
  with ne False show ?thesis
    by (cases "rmatch (RPlus (RClass fileIdClass)) (r, cap)")
       (simp_all del: rmatch.simps(6) add: take_length_dropWhile)
qed

lemma concat_unique:
  assumes "\<forall>p\<in>set xs. \<forall>q\<in>set xs. P p \<longrightarrow> P q \<longrightarrow> p = q" and "distinct xs"
  shows "concat (map (\<lambda>p. if P p then [g p] else []) xs) =
           (case find P xs of None \<Rightarrow> [] | Some p \<Rightarrow> [g p])"
  using assms
proof (induction xs)
  case Nil
  then show ?case by simp
next
  case (Cons x xs)
  show ?case
  proof (cases "P x")
    case True
    with Cons.prems have "\<forall>q\<in>set xs. \<not> P q" by auto
    then have "concat (map (\<lambda>p. if P p then [g p] else []) xs) = []" by (induction xs) auto
    with True show ?thesis by simp
  next
    case False
    with Cons show ?thesis by simp
  qed
qed

lemma take_match_length:
  assumes "prefix p s"
  shows "take (length s - length (dropWhile P (drop (length p) s))) s =
           p @ takeWhile P (drop (length p) s)"
proof -
  from assms obtain r where s: "s = p @ r" by (auto simp: prefix_def)
  have "length (dropWhile P r) \<le> length r" by (rule length_dropWhile_le)
  then have "length s - length (dropWhile P r) = length p + (length r - length (dropWhile P r))"
    using s by simp
  then show ?thesis using s by (simp add: take_length_dropWhile)
qed

lemma match_at_driveLinkRegex:
  "match_at driveLinkRegex s =
     (case find (\<lambda>p. prefix p s) linkPrefixes of None \<Rightarrow> None | Some p \<Rightarrow> fileIdAfter p s)"
proof -
  have u: "\<forall>p\<in>set linkPrefixes. \<forall>q\<in>set linkPrefixes. prefix p s \<longrightarrow> prefix q s \<longrightarrow> p = q"
    using linkPrefixes_exclusive by blast
  have pre: "rmatch linkPrefixRegex (s, None) =
      (case find (\<lambda>p. prefix p s) linkPrefixes of None \<Rightarrow> [] | Some p \<Rightarrow> [(drop (length p) s, None)])"
    unfolding rmatch_linkPrefixRegex
    by (rule concat_unique [OF u linkPrefixes_distinct])
  show ?thesis
  proof (cases "find (\<lambda>p. prefix p s) linkPrefixes")
    case None
    with pre show ?thesis by (simp add: match_at_def driveLinkRegex_def)
  next
    case (Some p)
    then have p: "prefix p s" by (auto simp: find_Some_iff)
    have "rmatch driveLinkRegex (s, None) =
            rmatch (RGroup (RPlus (RClass fileIdClass))) (drop (length p) s, None)"
      using pre Some by (simp add: driveLinkRegex_def del: rmatch.simps(6,7))
    then show ?thesis
      using rmatch_group_plus_class [of "drop (length p) s" None] Some p
      by (auto simp add: match_at_def fileIdAfter_def take_match_length
          simp del: rmatch.simps split: list.splits if_splits)
  qed
qed

lemma regex_exec_None_iff:
  "regex_exec r s = None \<longleftrightarrow> (\<forall>t. suffix t s \<longrightarrow> match_at r t = None)"
  by (induction s) (auto simp: suffix_Cons split: option.splits)

lemma regex_exec_Some_iff:
  "regex_exec r s = Some m \<longleftrightarrow>
     (\<exists>pre t. s = pre @ t \<and> match_at r t = Some m \<and>
        (\<forall>pre' t'. s = pre' @ t' \<and> length pre' < length pre \<longrightarrow> match_at r t' = None))"
proof (induction s)
  case Nil
  then show ?case by auto
next
  case (Cons c s)
  show ?case
  proof (cases "match_at r (c # s)")
    case (Some m')
    show ?thesis
    proof
      assume "regex_exec r (c # s) = Some m"
      with Some have "m' = m" by simp
      with Some show "\<exists>pre t. c # s = pre @ t \<and> match_at r t = Some m \<and>
        (\<forall>pre' t'. c # s = pre' @ t' \<and> length pre' < length pre \<longrightarrow> match_at r t' = None)"
        by (intro exI [of _ "[]"] exI [of _ "c # s"]) simp
    next
      assume "\<exists>pre t. c # s = pre @ t \<and> match_at r t = Some m \<and>
        (\<forall>pre' t'. c # s = pre' @ t' \<and> length pre' < length pre \<longrightarrow> match_at r t' = None)"
      then obtain pre t where h: "c # s = pre @ t" "match_at r t = Some m"
        "\<forall>pre' t'. c # s = pre' @ t' \<and> length pre' < length pre \<longrightarrow> match_at r t' = None"
        by blast
      have "pre = []"
      proof (rule ccontr)
        assume "pre \<noteq> []"
        then have "length [] < length pre" by simp
        with h(3) have "match_at r (c # s) = None" by (metis append_Nil)
        with Some show False by simp
      qed
      with h(1) have "t = c # s" by simp
      with h(2) show "regex_exec r (c # s) = Some m" by simp
    qed
  next
    case None
    have "regex_exec r (c # s) = regex_exec r s" using None by simp
    also have "\<dots> = Some m \<longleftrightarrow> (\<exists>pre t. s = pre @ t \<and> match_at r t = Some m \<and>
        (\<forall>pre' t'. s = pre' @ t' \<and> length pre' < length pre \<longrightarrow> match_at r t' = None))"
      by (rule Cons.IH)
    also have "\<dots> \<longleftrightarrow> (\<exists>pre t. c # s = pre @ t \<and> match_at r t = Some m \<and>
        (\<forall>pre' t'. c # s = pre' @ t' \<and> length pre' < length pre \<longrightarrow> match_at r t' = None))"
      (is "?L \<longleftrightarrow> ?R")
    proof
      assume ?L
      then obtain pre t where h: "s = pre @ t" "match_at r t = Some m"
        "\<forall>pre' t'. s = pre' @ t' \<and> length pre' < length pre \<longrightarrow> match_at r t' = None"
        by blast
      have "\<forall>pre' t'. c # s = pre' @ t' \<and> length pre' < length (c # pre) \<longrightarrow> match_at r t' = None"
      proof (intro allI impI)
        fix pre' t' assume a: "c # s = pre' @ t' \<and> length pre' < length (c # pre)"
        show "match_at r t' = None"
        proof (cases pre')
          case Nil
          with a None show ?thesis by simp
        next
          case (Cons d pre'')
          with a h(3) show ?thesis by auto
        qed
      qed
      with h(1,2) show ?R
        by (intro exI [of _ "c # pre"] exI [of _ t]) simp
    next
      assume ?R
      then obtain pre t where h: "c # s = pre @ t" "match_at r t = Some m"
        "\<forall>pre' t'. c # s = pre' @ t' \<and> length pre' < length pre \<longrightarrow> match_at r t' = None"
        by blast
      from h(1,2) None obtain pre0 where p0: "pre = c # pre0" "s = pre0 @ t"
        by (cases pre) auto
      have "\<forall>pre' t'. s = pre' @ t' \<and> length pre' < length pre0 \<longrightarrow> match_at r t' = None"
      proof (intro allI impI)
        fix pre' t' assume a: "s = pre' @ t' \<and> length pre' < length pre0"
        then have "c # s = (c # pre') @ t' \<and> length (c # pre') < length pre" using p0 by simp
        with h(3) show "match_at r t' = None" by blast
      qed
      with p0 h(2) show ?L by blast
    qed
    finally show ?thesis .
  qed
qed


lemma idchar_not_ws: "isWhiteSpace c \<Longrightarrow> \<not> idchar c"
  unfolding isWhiteSpace_def idchar_def inClass_def fileIdClass_def
  by (auto simp: word_le_nat_alt)

lemma linkPrefixes_no_ws: "list_all (\<lambda>p. list_all (\<lambda>c. \<not> isWhiteSpace c) p \<and> p \<noteq> []) linkPrefixes"
  by code_simp

lemma linkPrefixes_no_idchar: "list_all (\<lambda>p. list_ex (\<lambda>c. \<not> idchar c) p) linkPrefixes"
  by code_simp

lemma find_linkPrefix:
  assumes "p \<in> set linkPrefixes" "prefix p s"
  shows "find (\<lambda>q. prefix q s) linkPrefixes = Some p"
proof (cases "find (\<lambda>q. prefix q s) linkPrefixes")
  case None
  with assms show ?thesis by (auto simp: find_None_iff)
next
  case (Some q)
  then have "q \<in> set linkPrefixes" "prefix q s"
    by (auto simp: find_Some_iff)
  with assms Some show ?thesis using linkPrefixes_exclusive by blast
qed

lemma match_at_shape:
  assumes "p \<in> set linkPrefixes"
  shows "match_at driveLinkRegex (p @ r) =
           (if takeWhile idchar r = [] then None
            else Some (p @ takeWhile idchar r, Some (takeWhile idchar r)))"
  using find_linkPrefix [OF assms, of "p @ r"]
  by (simp add: match_at_driveLinkRegex fileIdAfter_def)

lemma match_at_SomeD:
  assumes "match_at driveLinkRegex t = Some m"
  shows "\<exists>p\<in>set linkPrefixes. \<exists>r. t = p @ r \<and> takeWhile idchar r \<noteq> [] \<and>
           m = (p @ takeWhile idchar r, Some (takeWhile idchar r))"
proof -
  from assms obtain p where f: "find (\<lambda>p. prefix p t) linkPrefixes = Some p"
    and m: "fileIdAfter p t = Some m"
    by (auto simp: match_at_driveLinkRegex split: option.splits)
  from f have p: "p \<in> set linkPrefixes" "prefix p t" by (auto simp: find_Some_iff)
  then obtain r where r: "t = p @ r" by (auto simp: prefix_def)
  with m have "takeWhile idchar r \<noteq> [] \<and> m = (p @ takeWhile idchar r, Some (takeWhile idchar r))"
    by (auto simp: fileIdAfter_def split: if_splits)
  with p r show ?thesis by blast
qed

lemma takeWhile_eq_Nil_iff: "takeWhile P xs = [] \<longleftrightarrow> xs = [] \<or> \<not> P (hd xs)"
  by (cases xs) auto

lemma match_at_None_iff:
  "match_at driveLinkRegex t = None \<longleftrightarrow>
     (\<forall>p\<in>set linkPrefixes. \<forall>c r. t = p @ c # r \<longrightarrow> \<not> idchar c)"
proof
  assume n: "match_at driveLinkRegex t = None"
  show "\<forall>p\<in>set linkPrefixes. \<forall>c r. t = p @ c # r \<longrightarrow> \<not> idchar c"
  proof (intro ballI allI impI)
    fix p c r assume "p \<in> set linkPrefixes" "t = p @ c # r"
    with n match_at_shape [of p "c # r"] show "\<not> idchar c"
      by (auto split: if_splits)
  qed
next
  assume a: "\<forall>p\<in>set linkPrefixes. \<forall>c r. t = p @ c # r \<longrightarrow> \<not> idchar c"
  show "match_at driveLinkRegex t = None"
  proof (rule ccontr)
    assume "match_at driveLinkRegex t \<noteq> None"
    then obtain m where "match_at driveLinkRegex t = Some m" by auto
    from match_at_SomeD [OF this] obtain p r where
      h: "p \<in> set linkPrefixes" "t = p @ r" "takeWhile idchar r \<noteq> []" by blast
    then obtain c r' where "r = c # r'" "idchar c"
      by (cases r) (auto split: if_splits)
    with h a show False by blast
  qed
qed

lemma regex_exec_no_prefix:
  assumes "\<forall>p\<in>set linkPrefixes. \<not> sublist p s"
  shows "regex_exec driveLinkRegex s = None"
proof -
  have "match_at driveLinkRegex t = None" if "suffix t s" for t
  proof (rule ccontr)
    assume "match_at driveLinkRegex t \<noteq> None"
    then obtain m where "match_at driveLinkRegex t = Some m" by auto
    from match_at_SomeD [OF this] obtain p r where h: "p \<in> set linkPrefixes" "t = p @ r"
      by blast
    from that obtain pre where "s = pre @ t" by (auto simp: suffix_def)
    with h have "sublist p s" by (auto simp: sublist_def)
    with h assms show False by blast
  qed
  then show ?thesis by (simp add: regex_exec_None_iff)
qed

lemma takeWhile_run:
  assumes "\<forall>c\<in>set fid. P c" "rest = [] \<or> \<not> P (hd rest)"
  shows "takeWhile P (fid @ rest) = fid"
  using assms by (cases rest) (auto simp: takeWhile_append2 takeWhile_eq_all_conv)

lemma regex_exec_first_match:
  assumes s: "s = pre @ p @ fid @ rest"
    and p: "p \<in> set linkPrefixes"
    and fid: "fid \<noteq> []" "\<forall>c\<in>set fid. idchar c"
    and rest: "rest = [] \<or> \<not> idchar (hd rest)"
    and leftmost: "\<forall>pre' p' c r'. p' \<in> set linkPrefixes \<and> idchar c \<and> s = pre' @ p' @ c # r'
                     \<longrightarrow> length pre \<le> length pre'"
  shows "regex_exec driveLinkRegex s = Some (p @ fid, Some fid)"
proof -
  have tw: "takeWhile idchar (fid @ rest) = fid"
    using fid(2) rest by (rule takeWhile_run)
  have m: "match_at driveLinkRegex (p @ fid @ rest) = Some (p @ fid, Some fid)"
    using match_at_shape [OF p, of "fid @ rest"] tw fid(1) by simp
  have "match_at driveLinkRegex t' = None" if "s = pre' @ t'" "length pre' < length pre" for pre' t'
  proof (rule ccontr)
    assume "match_at driveLinkRegex t' \<noteq> None"
    then obtain p' c r' where "p' \<in> set linkPrefixes" "t' = p' @ c # r'" "idchar c"
      by (auto simp: match_at_None_iff)
    with that(1) leftmost have "length pre \<le> length pre'" by blast
    with that(2) show False by simp
  qed
  with s m show ?thesis
    unfolding regex_exec_Some_iff by blast
qed

text \<open>
  Every text that holds a recognized prefix with a class character after it has the
  decomposition at which \<open>regex_exec_first_match\<close> applies.
\<close>

lemma recognized_link_has_leftmost_match:
  assumes "p0 \<in> set linkPrefixes" "idchar c0" "sublist (p0 @ [c0]) s"
  shows "\<exists>pre p fid rest.
           s = pre @ p @ fid @ rest \<and> p \<in> set linkPrefixes \<and>
           fid \<noteq> [] \<and> (\<forall>c\<in>set fid. idchar c) \<and> (rest = [] \<or> \<not> idchar (hd rest)) \<and>
           (\<forall>pre' p' c r'. p' \<in> set linkPrefixes \<and> idchar c \<and> s = pre' @ p' @ c # r'
              \<longrightarrow> length pre \<le> length pre')"
proof -
  from assms(3) obtain a b where s: "s = a @ p0 @ c0 # b" by (auto simp: sublist_def)
  then have "suffix (p0 @ c0 # b) s" by (simp add: suffix_def)
  moreover have "match_at driveLinkRegex (p0 @ c0 # b) \<noteq> None"
    using assms(1,2) by (auto simp: match_at_None_iff)
  ultimately have "regex_exec driveLinkRegex s \<noteq> None"
    by (auto simp: regex_exec_None_iff)
  then obtain m where "regex_exec driveLinkRegex s = Some m" by auto
  then obtain pre t where t: "s = pre @ t" "match_at driveLinkRegex t = Some m"
    and least: "\<forall>pre' t'. s = pre' @ t' \<and> length pre' < length pre \<longrightarrow> match_at driveLinkRegex t' = None"
    unfolding regex_exec_Some_iff by blast
  from match_at_SomeD [OF t(2)] obtain p r where
    p: "p \<in> set linkPrefixes" "t = p @ r" "takeWhile idchar r \<noteq> []" by blast
  let ?fid = "takeWhile idchar r" and ?rest = "dropWhile idchar r"
  have 1: "s = pre @ p @ ?fid @ ?rest" using t(1) p(2) by simp
  have 2: "\<forall>c\<in>set ?fid. idchar c" by (auto dest: set_takeWhileD)
  have 3: "?rest = [] \<or> \<not> idchar (hd ?rest)" by (metis hd_dropWhile)
  have 4: "length pre \<le> length pre'"
    if "p' \<in> set linkPrefixes" "idchar c" "s = pre' @ p' @ c # r'" for pre' p' c r'
  proof (rule ccontr)
    assume "\<not> length pre \<le> length pre'"
    then have "length pre' < length pre" by simp
    with that(3) least have "match_at driveLinkRegex (p' @ c # r') = None" by blast
    with that(1,2) show False by (auto simp: match_at_None_iff)
  qed
  from 1 p(1,3) 2 3 4 show ?thesis by blast
qed

lemma linkPrefix_head_not_ws:
  assumes "p \<in> set linkPrefixes"
  shows "p \<noteq> []" "\<forall>c\<in>set p. \<not> isWhiteSpace c"
  using assms linkPrefixes_no_ws by (auto simp: list_all_iff)

lemma linkPrefixes_head: "list_all (\<lambda>p. p \<noteq> [] \<and> hd p = of_char CHR ''h'') linkPrefixes"
  by code_simp

lemma match_at_other_head:
  assumes "c \<noteq> of_char CHR ''h''"
  shows "match_at driveLinkRegex (c # t) = None"
proof -
  have "\<not> prefix p (c # t)" if "p \<in> set linkPrefixes" for p
  proof
    assume "prefix p (c # t)"
    moreover from that linkPrefixes_head have "p \<noteq> []" "hd p = of_char CHR ''h''"
      by (auto simp: list_all_iff)
    ultimately show False using assms by (cases p) auto
  qed
  then have "find (\<lambda>p. prefix p (c # t)) linkPrefixes = None"
    by (simp add: find_None_iff)
  then show ?thesis by (simp add: match_at_driveLinkRegex)
qed

lemma match_at_ws_head:
  assumes "isWhiteSpace c"
  shows "match_at driveLinkRegex (c # t) = None"
proof (rule match_at_other_head)
  from assms show "c \<noteq> of_char CHR ''h''"
    by (auto simp: isWhiteSpace_def)
qed

lemma regex_exec_dropWhile_ws:
  "regex_exec driveLinkRegex (dropWhile isWhiteSpace s) = regex_exec driveLinkRegex s"
  by (induction s) (simp_all add: match_at_ws_head)

lemma takeWhile_append_none:
  assumes "\<forall>c\<in>set w. \<not> P c"
  shows "takeWhile P (x @ w) = takeWhile P x"
  using assms by (induction x) (auto simp: takeWhile_eq_Nil_iff)

lemma prefix_append_ws:
  assumes "p \<in> set linkPrefixes" "\<forall>c\<in>set w. isWhiteSpace c"
  shows "prefix p (t @ w) \<longleftrightarrow> prefix p t"
proof
  assume a: "prefix p (t @ w)"
  show "prefix p t"
  proof (rule ccontr)
    assume n: "\<not> prefix p t"
    with a obtain us where us: "p = t @ us" "prefix us w"
      by (auto simp: prefix_append)
    with n have "us \<noteq> []" by auto
    then have "hd us \<in> set us" by simp
    with us have "hd us \<in> set p" "hd us \<in> set w"
      using set_mono_prefix [of us w] by auto
    with assms(2) linkPrefix_head_not_ws(2) [OF assms(1)] show False by blast
  qed
qed (simp add: prefix_prefix)

lemma match_at_append_ws:
  assumes "\<forall>c\<in>set w. isWhiteSpace c"
  shows "match_at driveLinkRegex (t @ w) = match_at driveLinkRegex t"
proof -
  have f: "find (\<lambda>p. prefix p (t @ w)) linkPrefixes = find (\<lambda>p. prefix p t) linkPrefixes"
    using assms by (intro find_cong refl) (simp add: prefix_append_ws)
  have n: "\<forall>c\<in>set w. \<not> idchar c" using assms idchar_not_ws by blast
  have "fileIdAfter p (t @ w) = fileIdAfter p t" if "p \<in> set linkPrefixes" "prefix p t" for p
  proof -
    from that(2) obtain r where "t = p @ r" by (auto simp: prefix_def)
    then show ?thesis
      using takeWhile_append_none [OF n, of r] by (simp add: fileIdAfter_def)
  qed
  note eq = this
  show ?thesis
  proof (cases "find (\<lambda>p. prefix p t) linkPrefixes")
    case None
    then show ?thesis by (simp add: match_at_driveLinkRegex f)
  next
    case (Some p)
    then have "p \<in> set linkPrefixes" "prefix p t" by (auto simp: find_Some_iff)
    from eq [OF this] Some show ?thesis by (simp add: match_at_driveLinkRegex f)
  qed
qed

lemma match_at_Nil: "match_at driveLinkRegex [] = None"
  by (simp add: match_at_driveLinkRegex linkPrefixes_def js_def)

lemma regex_exec_ws:
  assumes "\<forall>c\<in>set w. isWhiteSpace c"
  shows "regex_exec driveLinkRegex w = None"
  using assms by (induction w) (simp_all add: match_at_ws_head match_at_Nil)

lemma regex_exec_append_ws:
  assumes "\<forall>c\<in>set w. isWhiteSpace c"
  shows "regex_exec driveLinkRegex (s @ w) = regex_exec driveLinkRegex s"
proof (induction s)
  case Nil
  then show ?case using regex_exec_ws [OF assms] by (simp add: match_at_Nil)
next
  case (Cons c s)
  then show ?case using match_at_append_ws [OF assms, of "c # s"]
    by (simp split: option.splits)
qed

lemma regex_exec_trim:
  "regex_exec driveLinkRegex (trim s) = regex_exec driveLinkRegex s"
proof -
  define u where "u = dropWhile isWhiteSpace s"
  define w where "w = rev (takeWhile isWhiteSpace (rev u))"
  have "trim s @ w = rev (takeWhile isWhiteSpace (rev u) @ dropWhile isWhiteSpace (rev u))"
    by (simp only: trim_def u_def w_def rev_append)
  also have "\<dots> = u" by simp
  finally have u: "u = trim s @ w" by simp
  have "\<forall>c\<in>set w. isWhiteSpace c"
    unfolding w_def by (auto dest: set_takeWhileD)
  then have "regex_exec driveLinkRegex (trim s @ w) = regex_exec driveLinkRegex (trim s)"
    by (rule regex_exec_append_ws)
  with u have "regex_exec driveLinkRegex (trim s) = regex_exec driveLinkRegex u" by simp
  then show ?thesis by (simp add: u_def regex_exec_dropWhile_ws)
qed

lemma trim_Nil_iff: "trim s = [] \<longleftrightarrow> (\<forall>c\<in>set s. isWhiteSpace c)"
proof -
  have "trim s = [] \<longleftrightarrow> dropWhile isWhiteSpace s = []"
    unfolding trim_def
    by (metis dropWhile.simps(1) dropWhile_eq_Nil_conv rev_is_Nil_conv set_rev dropWhile_idem
        dropWhile_append3 hd_dropWhile list.collapse rev.simps(1))
  then show ?thesis by (simp add: dropWhile_eq_Nil_conv)
qed

lemma regex_exec_case_sensitive:
  assumes "\<forall>t\<in>set (suffixes s). \<forall>p\<in>set linkPrefixes. ciPrefix p t \<longrightarrow> \<not> prefix p t"
  shows "regex_exec driveLinkRegex s = None"
proof (rule regex_exec_no_prefix, rule ballI, rule notI)
  fix p assume p: "p \<in> set linkPrefixes" and "sublist p s"
  then obtain pre r where "s = pre @ p @ r" by (auto simp: sublist_def)
  then have t: "p @ r \<in> set (suffixes s)" by (simp add: in_set_suffixes suffix_def)
  have "ciPrefix p (p @ r)" "prefix p (p @ r)" by (simp_all add: ciPrefix_def)
  with assms t p show False by blast
qed

lemma match_at_idchars:
  assumes "\<forall>c\<in>set t. idchar c"
  shows "match_at driveLinkRegex t = None"
proof -
  have "\<not> prefix p t" if "p \<in> set linkPrefixes" for p
  proof
    assume "prefix p t"
    then have "set p \<subseteq> set t" by (rule set_mono_prefix)
    moreover from that linkPrefixes_no_idchar obtain c where "c \<in> set p" "\<not> idchar c"
      by (auto simp: list_all_iff list_ex_iff)
    ultimately show False using assms by blast
  qed
  then have "find (\<lambda>p. prefix p t) linkPrefixes = None"
    by (simp add: find_None_iff)
  then show ?thesis by (simp add: match_at_driveLinkRegex)
qed

lemma regex_exec_idchars:
  assumes "\<forall>c\<in>set t. idchar c"
  shows "regex_exec driveLinkRegex t = None"
  using assms by (induction t) (simp_all add: match_at_idchars)

lemma match_at_directLink:
  "match_at driveLinkRegex (js ''https://drive.google.com/uc?export=download&id='' @ fid) = None"
  by (simp add: match_at_driveLinkRegex linkPrefixes_def js_def)

lemma regex_exec_directLink:
  assumes "\<forall>c\<in>set fid. idchar c"
  shows "regex_exec driveLinkRegex (directLink fid) = None"
proof -
  have "regex_exec driveLinkRegex (directLink fid) =
          regex_exec driveLinkRegex (tl (js ''https://drive.google.com/uc?export=download&id='') @ fid)"
    using match_at_directLink [of fid] by (simp add: directLink_def js_def)
  also have "\<dots> = regex_exec driveLinkRegex fid"
    by (simp add: js_def match_at_other_head)
  also have "\<dots> = None"
    using assms by (rule regex_exec_idchars)
  finally show ?thesis .
qed

section \<open>The operations of the page\<close>

lemmas status_defs = displayStatusMessage_def clearTimeout_def setTimeout_def

lemmas button_defs =
  toggleCopyButtonState_def startButtonLoading_def stopButtonLoading_def logCall_def


lemma generateLink_nonempty:
  assumes "trim (driveLinkInput_value st) \<noteq> []"
  shows "generateLink st =
           snd (setTimeout (ResumeGenerateLink (trim (driveLinkInput_value st))) 1200
             (startButtonLoading (toggleCopyButtonState
               (st\<lparr>outputLinkInput_value := [], statusMessage_show := False,
                   statusMessage_textContent := [], statusMessage_display := js ''none'',
                   statusMessage_dataType := None\<rparr>))))"
  using assms by (simp add: generateLink_def Let_def)

lemma generateLink_resume_match:
  assumes "regex_exec driveLinkRegex input = Some (m0, Some fileId)" "fileId \<noteq> []"
  shows "generateLink_resume input st =
     toggleCopyButtonState (stopButtonLoading
       (logCall CallSelect (logCall CallFocus
         ((displayStatusMessage (js ''Direct download link generated successfully!'') (js ''success'')
            ((logCall (CallMatch input) st)\<lparr>outputLinkInput_value := directLink fileId\<rparr>))
          \<lparr>outputLinkInput_focused := True, outputLinkInput_selected := True\<rparr>))))"
  using assms by (simp add: generateLink_resume_def Let_def)

lemma generateLink_resume_nomatch:
  assumes "regex_exec driveLinkRegex input = None"
  shows "generateLink_resume input st =
     toggleCopyButtonState (stopButtonLoading
       (displayStatusMessage
          (js ''Invalid Google Drive link format. Please ensure it's a valid file link.'')
          (js ''error'') (logCall (CallMatch input) st)))"
  using assms by (simp add: generateLink_resume_def Let_def)

lemma trim_nonempty_of_match:
  assumes "regex_exec driveLinkRegex s \<noteq> None"
  shows "trim s \<noteq> []"
proof
  assume "trim s = []"
  then have "regex_exec driveLinkRegex (trim s) = None" by (simp add: match_at_Nil)
  with assms show False by (simp add: regex_exec_trim)
qed

lemma generateLink_resume_loading: "\<not> generateButton_loading (generateLink_resume input st)"
  by (simp add: generateLink_resume_def Let_def button_defs split: option.splits prod.splits)

lemma generateLink_resume_copyButton: "copyButtonReflectsOutput (generateLink_resume input st)"
  by (simp add: generateLink_resume_def Let_def button_defs copyButtonReflectsOutput_def
      split: option.splits prod.splits)

lemma generateLink_copyButton: "copyButtonReflectsOutput (generateLink st)"
  by (simp add: generateLink_def Let_def button_defs status_defs copyButtonReflectsOutput_def)

section \<open>The event loop\<close>

lemma earliest_None_iff: "earliest ts = None \<longleftrightarrow> ts = []"
  by (induction ts) (auto split: option.splits)

lemma earliest_least:
  "earliest ts = Some u \<Longrightarrow> t \<in> set ts \<Longrightarrow> fst (snd u) \<le> fst (snd t)"
  by (induction ts arbitrary: u) (auto simp: earliest_None_iff split: option.splits if_splits)

lemma run_until_rule:
  assumes step: "\<And>s i due cb. I s \<Longrightarrow> earliest (timers s) = Some (i, due, cb) \<Longrightarrow> due \<le> T \<Longrightarrow>
      I (fire cb (s\<lparr>now := max (now s) due, timers := filter (\<lambda>t. fst t \<noteq> i) (timers s)\<rparr>))"
    and stop: "\<And>s. I s \<Longrightarrow> (\<forall>t\<in>set (timers s). T < fst (snd t)) \<Longrightarrow> F (s\<lparr>now := max (now s) T\<rparr>)"
  shows "I st \<Longrightarrow> F (run_until T st)"
  using step stop
proof (induction T st rule: run_until.induct)
  case (1 T st)
  note inv = "1.prems"(1) and step = "1.prems"(2) and stop = "1.prems"(3)
  show ?case
  proof (cases "earliest (timers st)")
    case None
    then have "timers st = []" by (simp add: earliest_None_iff)
    with inv stop [of st] None show ?thesis by (simp add: run_until.simps)
  next
    case (Some x)
    obtain i due cb where x: "x = (i, due, cb)" by (cases x)
    show ?thesis
    proof (cases "due \<le> T")
      case True
      have "I (fire cb (st\<lparr>now := max (now st) due, timers := filter (\<lambda>t. fst t \<noteq> i) (timers st)\<rparr>))"
        using inv Some x True by (intro step) simp_all
      from "1.IH" [OF Some x [symmetric] refl True this step stop] Some x True
      show ?thesis by (simp add: run_until.simps [of T st])
    next
      case False
      have "\<forall>t\<in>set (timers st). T < fst (snd t)"
      proof
        fix t assume "t \<in> set (timers st)"
        with Some have "fst (snd x) \<le> fst (snd t)" by (rule earliest_least)
        with False x show "T < fst (snd t)" by simp
      qed
      with inv stop [of st] Some x False show ?thesis by (simp add: run_until.simps)
    qed
  qed
qed

lemma timersOk_filter:
  "timersOk st \<Longrightarrow> timersOk (st\<lparr>now := n, timers := filter P (timers st)\<rparr>)"
  by (auto simp: timersOk_def list_all_iff distinct_map_filter)

lemma timersOk_setTimeout: "timersOk st \<Longrightarrow> timersOk (snd (setTimeout cb d st))"
  by (auto simp: timersOk_def setTimeout_def list_all_iff)

lemma timersOk_displayStatusMessage: "timersOk st \<Longrightarrow> timersOk (displayStatusMessage m ty st)"
  by (auto simp: timersOk_def status_defs list_all_iff distinct_map_filter)

lemma timersOk_resume: "timersOk st \<Longrightarrow> timersOk (generateLink_resume input st)"
proof -
  assume ok: "timersOk st"
  have 1: "timersOk (logCall c s) = timersOk s" for c s by (simp add: timersOk_def logCall_def)
  have 2: "timersOk (s\<lparr>outputLinkInput_value := v\<rparr>) = timersOk s" for v s by (simp add: timersOk_def)
  have 3: "timersOk (s\<lparr>outputLinkInput_focused := a, outputLinkInput_selected := b\<rparr>) = timersOk s" for a b s
    by (simp add: timersOk_def)
  have 4: "timersOk (toggleCopyButtonState s) = timersOk s" for s
    by (simp add: timersOk_def toggleCopyButtonState_def Let_def)
  have 5: "timersOk (stopButtonLoading s) = timersOk s" for s
    by (simp add: timersOk_def stopButtonLoading_def logCall_def)
  show ?thesis using ok
    by (simp add: generateLink_resume_def Let_def 1 2 3 4 5 timersOk_displayStatusMessage
        split: option.splits prod.splits)
qed

lemma timersOk_fire: "timersOk st \<Longrightarrow> timersOk (fire cb st)"
proof (cases cb)
  case DismissStatus
  assume "timersOk st"
  then have "timersOk (st\<lparr>statusMessage_show := False\<rparr>)" by (simp add: timersOk_def)
  then show ?thesis using DismissStatus by (simp add: timersOk_setTimeout)
next
  case ClearStatus
  assume "timersOk st"
  then show ?thesis using ClearStatus by (simp add: timersOk_def)
next
  case (ResumeGenerateLink x)
  assume "timersOk st"
  then show ?thesis using ResumeGenerateLink by (simp add: timersOk_resume)
qed


lemma isResume_simps [simp]:
  "isResume (i, d, ResumeGenerateLink x)" "\<not> isResume (i, d, DismissStatus)"
  "\<not> isResume (i, d, ClearStatus)"
  by (simp_all add: isResume_def)

lemma generateLink_waiting:
  assumes "timersOk st" "\<not> generationPending st" "trim (driveLinkInput_value st) \<noteq> []"
  shows "timersOk (generateLink st) \<and>
         waiting (nextTimerId st, now st + 1200, ResumeGenerateLink (trim (driveLinkInput_value st)))
           (generateLink st)"
  using assms unfolding generateLink_nonempty [OF assms(3)]
  by (auto simp: waiting_def timersOk_def generationPending_def list_all_iff list_ex_iff
      setTimeout_def button_defs Let_def)

lemma resume_timers:
  "set (timers (generateLink_resume input s)) \<subseteq>
     set (timers s) \<union> {(nextTimerId s, now s + 5000, DismissStatus)}"
  by (auto simp: generateLink_resume_def Let_def status_defs button_defs
      split: option.splits prod.splits if_splits)

lemma resume_fields:
  "outputLinkInput_value (generateLink_resume input s) =
     (case regex_exec driveLinkRegex input of
        Some (m0, Some fileId) \<Rightarrow> if fileId \<noteq> [] then directLink fileId else outputLinkInput_value s
      | _ \<Rightarrow> outputLinkInput_value s)"
  by (simp add: generateLink_resume_def Let_def status_defs button_defs
      split: option.splits prod.splits)

lemma timer_by_id:
  assumes "timersOk s" "t \<in> set (timers s)" "u \<in> set (timers s)" "fst t = fst u"
  shows "t = u"
proof -
  from assms(1) have "inj_on fst (set (timers s))"
    by (simp add: timersOk_def distinct_map)
  with assms(2-4) show ?thesis by (auto dest: inj_onD)
qed

lemma fire_plain:
  assumes "\<not> isResume (i, due, cb)"
  shows "outputLinkInput_value (fire cb s) = outputLinkInput_value s \<and>
         generateButton_loading (fire cb s) = generateButton_loading s \<and>
         set (timers (fire cb s)) \<subseteq> set (timers s) \<union> {(nextTimerId s, now s + 400, ClearStatus)} \<and>
         set (timers s) \<subseteq> set (timers (fire cb s))"
proof (cases cb)
  case DismissStatus
  then show ?thesis by (auto simp: setTimeout_def)
next
  case ClearStatus
  then show ?thesis by auto
next
  case (ResumeGenerateLink x)
  with assms show ?thesis by simp
qed

lemma generationPending_iff: "generationPending s \<longleftrightarrow> (\<exists>t\<in>set (timers s). isResume t)"
  by (simp add: generationPending_def list_ex_iff)

lemma fire_ours:
  assumes w: "waiting (k, T, ResumeGenerateLink input) s"
  shows "finished (generated input)
           (fire (ResumeGenerateLink input)
              (s\<lparr>now := n, timers := filter (\<lambda>t. fst t \<noteq> k) (timers s)\<rparr>))"
proof -
  let ?s1 = "s\<lparr>now := n, timers := filter (\<lambda>t. fst t \<noteq> k) (timers s)\<rparr>"
  have none: "\<not> isResume t" if "t \<in> set (timers ?s1)" for t
  proof
    assume "isResume t"
    with that w have "t = (k, T, ResumeGenerateLink input)" by (simp add: waiting_def)
    with that show False by simp
  qed
  have "\<not> isResume t" if "t \<in> set (timers (generateLink_resume input ?s1))" for t
  proof -
    from that resume_timers [of input ?s1]
    have "t \<in> set (timers ?s1) \<or> t = (nextTimerId ?s1, now ?s1 + 5000, DismissStatus)"
      by blast
    then show ?thesis using none by (elim disjE) simp_all
  qed
  then have "\<not> generationPending (generateLink_resume input ?s1)"
    by (auto simp: generationPending_iff)
  moreover from w have "outputLinkInput_value ?s1 = []" by (simp add: waiting_def)
  then have "outputLinkInput_value (generateLink_resume input ?s1) = generated input"
    by (simp add: resume_fields generated_def split: option.splits prod.splits)
  ultimately show ?thesis
    by (simp add: finished_def generateLink_resume_loading)
qed


lemma fire_other_waiting:
  assumes ok: "timersOk s" and w: "waiting ours s" and res: "isResume ours"
    and mem: "(i, due, cb) \<in> set (timers s)" and other: "\<not> isResume (i, due, cb)"
  shows "waiting ours (fire cb (s\<lparr>now := n, timers := filter (\<lambda>t. fst t \<noteq> i) (timers s)\<rparr>))"
proof -
  let ?s1 = "s\<lparr>now := n, timers := filter (\<lambda>t. fst t \<noteq> i) (timers s)\<rparr>"
  from fire_plain [OF other, of ?s1]
  have out: "outputLinkInput_value (fire cb ?s1) = outputLinkInput_value ?s1"
    and sub: "set (timers (fire cb ?s1)) \<subseteq>
                set (timers ?s1) \<union> {(nextTimerId ?s1, now ?s1 + 400, ClearStatus)}"
    and sup: "set (timers ?s1) \<subseteq> set (timers (fire cb ?s1))"
    by blast+
  from w have o: "ours \<in> set (timers s)" by (simp add: waiting_def)
  have "fst ours \<noteq> i"
  proof
    assume "fst ours = i"
    with timer_by_id [OF ok o mem] have "ours = (i, due, cb)" by simp
    with res other show False by simp
  qed
  with o have "ours \<in> set (timers ?s1)" by simp
  with sup have 1: "ours \<in> set (timers (fire cb ?s1))" by blast
  have 2: "t = ours" if "t \<in> set (timers (fire cb ?s1))" "isResume t" for t
  proof -
    from that(1) sub
    have "t \<in> set (timers ?s1) \<or> t = (nextTimerId ?s1, now ?s1 + 400, ClearStatus)" by blast
    with that(2) have "t \<in> set (timers s)" by auto
    with w that(2) show ?thesis by (simp add: waiting_def)
  qed
  from w out have 3: "outputLinkInput_value (fire cb ?s1) = []" by (simp add: waiting_def)
  from 1 2 3 show ?thesis unfolding waiting_def by blast
qed

lemma fire_other_finished:
  assumes f: "finished out s" and mem: "(i, due, cb) \<in> set (timers s)"
  shows "finished out (fire cb (s\<lparr>now := n, timers := filter (\<lambda>t. fst t \<noteq> i) (timers s)\<rparr>))"
proof -
  let ?s1 = "s\<lparr>now := n, timers := filter (\<lambda>t. fst t \<noteq> i) (timers s)\<rparr>"
  from f mem have other: "\<not> isResume (i, due, cb)"
    by (auto simp: finished_def generationPending_iff)
  from fire_plain [OF other, of ?s1]
  have out: "outputLinkInput_value (fire cb ?s1) = outputLinkInput_value ?s1"
    and ld: "generateButton_loading (fire cb ?s1) = generateButton_loading ?s1"
    and sub: "set (timers (fire cb ?s1)) \<subseteq>
                set (timers ?s1) \<union> {(nextTimerId ?s1, now ?s1 + 400, ClearStatus)}"
    by blast+
  have "\<not> isResume t" if "t \<in> set (timers (fire cb ?s1))" for t
  proof -
    from that sub
    have "t \<in> set (timers ?s1) \<or> t = (nextTimerId ?s1, now ?s1 + 400, ClearStatus)" by blast
    then show ?thesis
    proof
      assume "t \<in> set (timers ?s1)"
      then have "t \<in> set (timers s)" by simp
      with f show ?thesis by (auto simp: finished_def generationPending_iff)
    next
      assume "t = (nextTimerId ?s1, now ?s1 + 400, ClearStatus)"
      then show ?thesis by simp
    qed
  qed
  then have "\<not> generationPending (fire cb ?s1)" by (auto simp: generationPending_iff)
  with f out ld show ?thesis by (simp add: finished_def)
qed


lemma generateLink_runs_to_completion:
  assumes ok: "timersOk st" and idle: "\<not> generationPending st"
    and nb: "trim (driveLinkInput_value st) \<noteq> []"
  shows "finished (generated (trim (driveLinkInput_value st)))
           (run_until (now st + 1200) (generateLink st))"
proof -
  define input where "input = trim (driveLinkInput_value st)"
  define T where "T = now st + 1200"
  define ours where "ours = (nextTimerId st, T, ResumeGenerateLink input)"
  define I where
    "I s \<longleftrightarrow> timersOk s \<and> (waiting ours s \<or> finished (generated input) s)" for s :: ui
  have res: "isResume ours" by (simp add: ours_def)
  have init: "I (generateLink st)"
  proof -
    from generateLink_waiting [OF ok idle nb]
    show ?thesis by (simp add: I_def ours_def T_def input_def)
  qed
  have step: "I (fire cb (s\<lparr>now := max (now s) due, timers := filter (\<lambda>t. fst t \<noteq> i) (timers s)\<rparr>))"
    if inv: "I s" and e: "earliest (timers s) = Some (i, due, cb)" and "due \<le> T"
    for s :: ui and i due cb
  proof -
    let ?s' = "fire cb (s\<lparr>now := max (now s) due, timers := filter (\<lambda>t. fst t \<noteq> i) (timers s)\<rparr>)"
    from inv have oks: "timersOk s" by (simp add: I_def)
    then have ok': "timersOk ?s'" by (intro timersOk_fire timersOk_filter)
    from e have mem: "(i, due, cb) \<in> set (timers s)" by (rule earliest_mem)
    from inv consider (w) "waiting ours s" | (f) "finished (generated input) s"
      by (auto simp: I_def)
    then have "waiting ours ?s' \<or> finished (generated input) ?s'"
    proof cases
      case w
      show ?thesis
      proof (cases "isResume (i, due, cb)")
        case True
        with w mem have eq: "(i, due, cb) = ours" by (simp add: waiting_def)
        then have "i = nextTimerId st" "cb = ResumeGenerateLink input" by (simp_all add: ours_def)
        with fire_ours [of "nextTimerId st" T input s "max (now s) due"] w
        show ?thesis by (simp add: ours_def)
      next
        case False
        from fire_other_waiting [OF oks w res mem False] show ?thesis by simp
      qed
    next
      case f
      from fire_other_finished [OF f mem] show ?thesis by simp
    qed
    with ok' show ?thesis by (simp add: I_def)
  qed
  have stop: "finished (generated input) (s\<lparr>now := max (now s) T\<rparr>)"
    if inv: "I s" and late: "\<forall>t\<in>set (timers s). T < fst (snd t)" for s :: ui
  proof -
    have "\<not> waiting ours s"
    proof
      assume "waiting ours s"
      then have "ours \<in> set (timers s)" by (simp add: waiting_def)
      with late have "T < fst (snd ours)" by blast
      then show False by (simp add: ours_def)
    qed
    with inv have "finished (generated input) s" by (simp add: I_def)
    then show ?thesis by (simp add: finished_def generationPending_def)
  qed
  from run_until_rule [where I = I and F = "finished (generated input)" and T = T, OF step stop init]
  show ?thesis by (simp add: T_def input_def)
qed




lemma timersOk_generateLink: "timersOk st \<Longrightarrow> timersOk (generateLink st)"
  by (auto simp: generateLink_def Let_def timersOk_def status_defs button_defs list_all_iff
      distinct_map_filter)

lemma timersOk_copyToClipboard: "timersOk st \<Longrightarrow> timersOk (copyToClipboard outcome st)"
  by (cases outcome)
     (auto simp: copyToClipboard_def Let_def timersOk_def status_defs button_defs list_all_iff
        distinct_map_filter)

lemma timersOk_run_until: "timersOk st \<Longrightarrow> timersOk (run_until T st)"
proof (rule run_until_rule [where I = timersOk and F = timersOk and T = T])
  fix s :: ui and i due cb
  assume "timersOk s"
  then show "timersOk (fire cb (s\<lparr>now := max (now s) due, timers := filter (\<lambda>t. fst t \<noteq> i) (timers s)\<rparr>))"
    by (intro timersOk_fire timersOk_filter)
next
  fix s :: ui
  assume "timersOk s"
  then show "timersOk (s\<lparr>now := max (now s) T\<rparr>)" by (simp add: timersOk_def)
qed

lemma reachable_timersOk: "reachable st \<Longrightarrow> timersOk st"
proof (induction rule: reachable.induct)
  case (loaded st)
  then show ?case
    by (simp add: timersOk_def onDOMContentLoaded_def applySavedTheme_def
        toggleCopyButtonState_def Let_def)
next
  case (typed st v)
  then show ?case by (simp add: timersOk_def)
next
  case (generate st)
  then show ?case by (simp add: timersOk_generateLink)
next
  case (copy st outcome)
  then show ?case by (simp add: timersOk_copyToClipboard)
next
  case (theme st c)
  then show ?case by (simp add: timersOk_def userSetsThemeToggle_def themeToggle_change_def)
next
  case (elapse st T)
  then show ?case by (simp add: timersOk_run_until)
qed

section \<open>Link generation\<close>

lemma generated_match:
  assumes "regex_exec driveLinkRegex input = Some (m0, Some fileId)" "fileId \<noteq> []"
  shows "generated input = directLink fileId"
  using assms by (simp add: generated_def)


text \<open>
  Claim C1. The input holds a recognized prefix \<open>p\<close> followed by a non-empty run \<open>fid\<close>
  of characters of the class \<open>[a-zA-Z0-9_-]\<close> that cannot be extended (the text ends
  after it, or a character outside the class follows), and no recognized prefix with a
  class character after it starts further left (every input that holds a recognized prefix
  with a class character after it has exactly such a decomposition,
  \<open>recognized_link_has_leftmost_match\<close>): this is the match the engine finds, and its
  capture group is \<open>fid\<close>. Then \<open>generateLink\<close> registers its continuation with the
  trimmed input, due after 1200 ms, and whenever the continuation runs, in whatever state
  the page is then, it sets the output value to the text
  \<open>https://drive.google.com/uc?export=download&id=\<close> followed by \<open>fid\<close>, character for
  character. In particular, when generate is clicked in a state the page can be in with no
  other generation waiting, the output value is that text once the 1200 ms have passed.
\<close>

theorem generateLink_recognized_link:
  assumes "driveLinkInput_value st = pre @ p @ fid @ rest"
    and "p \<in> set linkPrefixes"
    and "fid \<noteq> []" and "\<forall>c\<in>set fid. idchar c"
    and "rest = [] \<or> \<not> idchar (hd rest)"
    and "\<forall>pre' p' c r'. p' \<in> set linkPrefixes \<and> idchar c \<and> driveLinkInput_value st = pre' @ p' @ c # r'
           \<longrightarrow> length pre \<le> length pre'"
  shows "regex_exec driveLinkRegex (trim (driveLinkInput_value st)) = Some (p @ fid, Some fid) \<and>
         timers (generateLink st) =
           timers st @ [(nextTimerId st, now st + 1200, ResumeGenerateLink (trim (driveLinkInput_value st)))] \<and>
         (\<forall>st'. outputLinkInput_value (generateLink_resume (trim (driveLinkInput_value st)) st') =
                  js ''https://drive.google.com/uc?export=download&id='' @ fid) \<and>
         (reachable st \<and> \<not> generationPending st \<longrightarrow>
            outputLinkInput_value (run_until (now st + 1200) (generateLink st)) =
              js ''https://drive.google.com/uc?export=download&id='' @ fid)"
proof -
  have m: "regex_exec driveLinkRegex (driveLinkInput_value st) = Some (p @ fid, Some fid)"
    using assms by (rule regex_exec_first_match)
  then have t: "trim (driveLinkInput_value st) \<noteq> []"
    by (intro trim_nonempty_of_match) simp
  from m have m': "regex_exec driveLinkRegex (trim (driveLinkInput_value st)) = Some (p @ fid, Some fid)"
    by (simp add: regex_exec_trim)
  have 1: "timers (generateLink st) =
           timers st @ [(nextTimerId st, now st + 1200, ResumeGenerateLink (trim (driveLinkInput_value st)))]"
    unfolding generateLink_nonempty [OF t] by (simp add: status_defs button_defs)
  have 2: "outputLinkInput_value (generateLink_resume (trim (driveLinkInput_value st)) st') =
                  js ''https://drive.google.com/uc?export=download&id='' @ fid" for st'
    unfolding generateLink_resume_match [OF m' assms(3)]
    by (simp add: status_defs button_defs directLink_def Let_def)
  have 3: "outputLinkInput_value (run_until (now st + 1200) (generateLink st)) =
              js ''https://drive.google.com/uc?export=download&id='' @ fid"
    if "reachable st" "\<not> generationPending st"
  proof -
    from that(1) have "timersOk st" by (rule reachable_timersOk)
    from generateLink_runs_to_completion [OF this that(2) t]
    have "outputLinkInput_value (run_until (now st + 1200) (generateLink st)) =
            generated (trim (driveLinkInput_value st))"
      by (simp add: finished_def)
    also have "\<dots> = directLink fid" using m' assms(3) by (rule generated_match)
    finally show ?thesis by (simp add: directLink_def)
  qed
  from m' 1 2 3 show ?thesis by blast
qed

text \<open>
  Claim C1 at the share link \<open>https://drive.google.com/file/d/1A2b_3C-xyz/view?usp=sharing\<close>
  typed into the loaded page: the prefix is at the start, the run is \<open>1A2b_3C-xyz\<close>, and
  \<open>/\<close> ends it.
\<close>

theorem generateLink_recognized_link_witness:
  "js ''https://drive.google.com/file/d/'' \<in> set linkPrefixes \<and>
   list_all idchar (js ''1A2b_3C-xyz'') \<and>
   \<not> idchar (hd (js ''/view?usp=sharing'')) \<and>
   timers (generateLink ((onDOMContentLoaded emptyPage)\<lparr>driveLinkInput_value :=
       js ''https://drive.google.com/file/d/1A2b_3C-xyz/view?usp=sharing''\<rparr>)) =
     [(1, 1200, ResumeGenerateLink (js ''https://drive.google.com/file/d/1A2b_3C-xyz/view?usp=sharing''))] \<and>
   outputLinkInput_value (generateLink_resume
       (js ''https://drive.google.com/file/d/1A2b_3C-xyz/view?usp=sharing'') emptyPage) =
     js ''https://drive.google.com/uc?export=download&id=1A2b_3C-xyz'' \<and>
   outputLinkInput_value (run_until 1200 (generateLink ((onDOMContentLoaded emptyPage)\<lparr>driveLinkInput_value :=
       js ''https://drive.google.com/file/d/1A2b_3C-xyz/view?usp=sharing''\<rparr>))) =
     js ''https://drive.google.com/uc?export=download&id=1A2b_3C-xyz''"
proof -
  let ?st = "(onDOMContentLoaded emptyPage)\<lparr>driveLinkInput_value :=
       js ''https://drive.google.com/file/d/1A2b_3C-xyz/view?usp=sharing''\<rparr>"
  have h1: "driveLinkInput_value ?st =
      [] @ js ''https://drive.google.com/file/d/'' @ js ''1A2b_3C-xyz'' @ js ''/view?usp=sharing''"
    by (simp add: js_def)
  have h2: "js ''https://drive.google.com/file/d/'' \<in> set linkPrefixes"
    by (simp add: linkPrefixes_def)
  have h3: "js ''1A2b_3C-xyz'' \<noteq> []" by (simp add: js_def)
  have h4: "list_all idchar (js ''1A2b_3C-xyz'')"
    by (simp add: js_def idchar_def inClass_def fileIdClass_def)
  then have h4': "\<forall>c\<in>set (js ''1A2b_3C-xyz''). idchar c" by (simp add: list_all_iff)
  have h5: "\<not> idchar (hd (js ''/view?usp=sharing''))"
    by (simp add: js_def idchar_def inClass_def fileIdClass_def)
  then have h5': "js ''/view?usp=sharing'' = [] \<or> \<not> idchar (hd (js ''/view?usp=sharing''))" ..
  have h6: "\<forall>pre' p' c r'. p' \<in> set linkPrefixes \<and> idchar c \<and> driveLinkInput_value ?st = pre' @ p' @ c # r'
           \<longrightarrow> length ([] :: jsstring) \<le> length pre'" by simp
  have tr: "trim (js ''https://drive.google.com/file/d/1A2b_3C-xyz/view?usp=sharing'') =
      js ''https://drive.google.com/file/d/1A2b_3C-xyz/view?usp=sharing''"
    by (simp add: trim_def js_def isWhiteSpace_def)
  have r: "reachable ?st"
    by (intro reachable.typed reachable.loaded) (simp add: emptyPage_def)
  have i: "\<not> generationPending ?st" "now ?st = 0" "timers ?st = []" "nextTimerId ?st = 1"
    by (simp_all add: generationPending_def onDOMContentLoaded_def applySavedTheme_def
        toggleCopyButtonState_def Let_def emptyPage_def)
  from generateLink_recognized_link [OF h1 h2 h3 h4' h5' h6] h2 h4 h5 tr r i show ?thesis
    by simp (simp add: js_def)
qed






text \<open>
  Claim C5, as stated, fails on the path of the empty input when the class \<open>loading\<close>
  is set at the call: the user clicks generate with a link, and during the 1200 ms clears
  the field and clicks again. The second call returns at the check for an empty input; it
  has registered nothing but the timer that dismisses its status, and the class
  \<open>loading\<close> is still set.
\<close>

theorem generateLink_loading_counterexample:
  "(let st1 = generateLink (emptyPage\<lparr>driveLinkInput_value := js ''https://drive.google.com/open?id=XyZ789_-''\<rparr>);
        st2 = generateLink (st1\<lparr>driveLinkInput_value := []\<rparr>)
    in trim (driveLinkInput_value (st1\<lparr>driveLinkInput_value := []\<rparr>)) = [] \<and>
       statusMessage_textContent st2 = js ''Please enter a Google Drive link.'' \<and>
       timers st2 =
         [(1, 1200, ResumeGenerateLink (js ''https://drive.google.com/open?id=XyZ789_-'')),
          (2, 5000, DismissStatus)] \<and>
       generateButton_loading st2)"
  by (simp add: generateLink_def trim_def isWhiteSpace_def status_defs button_defs Let_def
      emptyPage_def js_def)

text \<open>
  Claim C5, amended. The continuation of \<open>generateLink\<close>, which is where every call
  that has set the class \<open>loading\<close> ends (with a file identifier or without a match),
  always ends with the class removed. A call with a non-empty trimmed input sets the class
  and registers the continuation; when it is made in a state the page can be in with no
  other generation waiting, the class is removed once the 1200 ms have passed. A call with
  an empty trimmed input leaves the class as it was at the call, so it ends with the class
  absent when it started with the class absent.
\<close>

theorem generateLink_loading_teardown:
  "(\<forall>input st'. \<not> generateButton_loading (generateLink_resume input st')) \<and>
   (trim (driveLinkInput_value st) \<noteq> [] \<longrightarrow>
      generateButton_loading (generateLink st) \<and>
      timers (generateLink st) =
        timers st @ [(nextTimerId st, now st + 1200, ResumeGenerateLink (trim (driveLinkInput_value st)))] \<and>
      (reachable st \<and> \<not> generationPending st \<longrightarrow>
         \<not> generateButton_loading (run_until (now st + 1200) (generateLink st)))) \<and>
   (trim (driveLinkInput_value st) = [] \<longrightarrow>
      generateButton_loading (generateLink st) = generateButton_loading st)"
proof -
  have "\<not> generateButton_loading (run_until (now st + 1200) (generateLink st))"
    if "trim (driveLinkInput_value st) \<noteq> []" "reachable st" "\<not> generationPending st"
  proof -
    from that(2) have "timersOk st" by (rule reachable_timersOk)
    from generateLink_runs_to_completion [OF this that(3) that(1)]
    show ?thesis by (simp add: finished_def)
  qed
  then show ?thesis
    by (simp add: generateLink_resume_loading generateLink_def status_defs button_defs Let_def)
qed

text \<open>
  Claim C5, amended, at the link \<open>https://drive.google.com/open?id=XyZ789_-\<close> typed into
  the loaded page, and at the empty input on a page where the class is absent.
\<close>

theorem generateLink_loading_teardown_witness:
  "\<not> generateButton_loading
       (generateLink_resume (js ''https://drive.google.com/open?id=XyZ789_-'')
          (generateLink ((onDOMContentLoaded emptyPage)\<lparr>driveLinkInput_value :=
             js ''https://drive.google.com/open?id=XyZ789_-''\<rparr>))) \<and>
   generateButton_loading
       (generateLink ((onDOMContentLoaded emptyPage)\<lparr>driveLinkInput_value :=
          js ''https://drive.google.com/open?id=XyZ789_-''\<rparr>)) \<and>
   \<not> generateButton_loading
       (run_until 1200 (generateLink ((onDOMContentLoaded emptyPage)\<lparr>driveLinkInput_value :=
          js ''https://drive.google.com/open?id=XyZ789_-''\<rparr>))) \<and>
   \<not> generateButton_loading (generateLink emptyPage)"
proof -
  let ?st = "(onDOMContentLoaded emptyPage)\<lparr>driveLinkInput_value :=
             js ''https://drive.google.com/open?id=XyZ789_-''\<rparr>"
  have t: "trim (driveLinkInput_value ?st) \<noteq> []"
    by (simp add: trim_def js_def isWhiteSpace_def)
  have e: "trim (driveLinkInput_value emptyPage) = []" by (simp add: emptyPage_def trim_def)
  have r: "reachable ?st"
    by (intro reachable.typed reachable.loaded) (simp add: emptyPage_def)
  have i: "\<not> generationPending ?st" "now ?st = 0"
    by (simp_all add: generationPending_def onDOMContentLoaded_def applySavedTheme_def
        toggleCopyButtonState_def Let_def emptyPage_def)
  from generateLink_loading_teardown [of ?st] generateLink_loading_teardown [of emptyPage] t e r i
  show ?thesis by (simp add: emptyPage_def)
qed

section \<open>The copy button\<close>

lemma fire_copyButton: "copyButtonReflectsOutput st \<Longrightarrow> copyButtonReflectsOutput (fire cb st)"
  by (cases cb)
     (simp_all add: generateLink_resume_copyButton, simp_all add: copyButtonReflectsOutput_def setTimeout_def)

lemma run_until_copyButton:
  "copyButtonReflectsOutput st \<Longrightarrow> copyButtonReflectsOutput (run_until T st)"
proof (rule run_until_rule [where I = copyButtonReflectsOutput and F = copyButtonReflectsOutput and T = T])
  fix s :: ui and i due cb
  assume "copyButtonReflectsOutput s"
  then have "copyButtonReflectsOutput
      (s\<lparr>now := max (now s) due, timers := filter (\<lambda>t. fst t \<noteq> i) (timers s)\<rparr>)"
    by (simp add: copyButtonReflectsOutput_def)
  then show "copyButtonReflectsOutput
      (fire cb (s\<lparr>now := max (now s) due, timers := filter (\<lambda>t. fst t \<noteq> i) (timers s)\<rparr>))"
    by (rule fire_copyButton)
next
  fix s :: ui
  assume "copyButtonReflectsOutput s"
  then show "copyButtonReflectsOutput (s\<lparr>now := max (now s) T\<rparr>)"
    by (simp add: copyButtonReflectsOutput_def)
qed

lemma copyToClipboard_copyButton:
  "copyButtonReflectsOutput st \<Longrightarrow> copyButtonReflectsOutput (copyToClipboard outcome st)"
  by (cases outcome)
     (simp_all add: copyToClipboard_def copyButtonReflectsOutput_def status_defs button_defs Let_def)

lemma reachable_copyButton: "reachable st \<Longrightarrow> copyButtonReflectsOutput st"
proof (induction rule: reachable.induct)
  case (loaded st)
  then show ?case
    by (simp add: onDOMContentLoaded_def applySavedTheme_def button_defs
        copyButtonReflectsOutput_def Let_def)
next
  case (typed st v)
  then show ?case by (simp add: copyButtonReflectsOutput_def)
next
  case (generate st)
  then show ?case by (simp add: generateLink_copyButton)
next
  case (copy st outcome)
  then show ?case by (simp add: copyToClipboard_copyButton)
next
  case (theme st c)
  then show ?case
    by (simp add: userSetsThemeToggle_def themeToggle_change_def copyButtonReflectsOutput_def)
next
  case (elapse st T)
  then show ?case by (simp add: run_until_copyButton)
qed

text \<open>
  Claim C6. After \<open>generateLink\<close> has cleared the output value, and after its
  continuation has run (with a file identifier, where it writes the output value, or
  without a match), the copy button is styled for the output value it then finds:
  \<open>pointer-events: none\<close>, \<open>opacity: 0.5\<close> and \<open>cursor: not-allowed\<close> when the value is
  empty, \<open>auto\<close>, \<open>1\<close> and \<open>pointer\<close> when it is not. And so it is in every state the
  page can be in between two events.
\<close>

theorem copyButton_after_output_mutation:
  "copyButtonReflectsOutput (generateLink st) \<and>
   copyButtonReflectsOutput (generateLink_resume input st') \<and>
   (reachable st'' \<longrightarrow> copyButtonReflectsOutput st'')"
  by (simp add: generateLink_resume_copyButton generateLink_copyButton reachable_copyButton)

text \<open>
  Claim C6 on a page whose copy button is not yet styled: disabled after the clear,
  enabled after a link has been generated; and on the loaded page 1200 ms after generate
  was clicked with a link in the input field.
\<close>

theorem copyButton_after_output_mutation_witness:
  "copyButton_pointerEvents (generateLink emptyPage) = js ''none'' \<and>
   copyButton_opacity (generateLink emptyPage) = js ''0.5'' \<and>
   copyButton_cursor (generateLink emptyPage) = js ''not-allowed'' \<and>
   copyButton_pointerEvents
     (generateLink_resume (js ''https://drive.google.com/open?id=XyZ789_-'') emptyPage) = js ''auto'' \<and>
   copyButton_opacity
     (generateLink_resume (js ''https://drive.google.com/open?id=XyZ789_-'') emptyPage) = js ''1'' \<and>
   copyButton_cursor
     (generateLink_resume (js ''https://drive.google.com/open?id=XyZ789_-'') emptyPage) = js ''pointer'' \<and>
   outputLinkInput_value
     (run_until 1200 (generateLink ((onDOMContentLoaded emptyPage)\<lparr>driveLinkInput_value :=
        js ''https://drive.google.com/open?id=XyZ789_-''\<rparr>))) =
     js ''https://drive.google.com/uc?export=download&id=XyZ789_-'' \<and>
   copyButton_pointerEvents
     (run_until 1200 (generateLink ((onDOMContentLoaded emptyPage)\<lparr>driveLinkInput_value :=
        js ''https://drive.google.com/open?id=XyZ789_-''\<rparr>))) = js ''auto''"
proof -
  let ?s = "js ''https://drive.google.com/open?id=XyZ789_-''"
  let ?st = "(onDOMContentLoaded emptyPage)\<lparr>driveLinkInput_value := ?s\<rparr>"
  have m: "regex_exec driveLinkRegex ?s = Some (?s, Some (js ''XyZ789_-''))"
    by code_simp
  have f: "js ''XyZ789_-'' \<noteq> []" by (simp add: js_def)
  have o1: "outputLinkInput_value (generateLink emptyPage) = []"
    by (simp add: generateLink_def trim_def status_defs button_defs Let_def emptyPage_def)
  have o2: "outputLinkInput_value (generateLink_resume ?s emptyPage) \<noteq> []"
    unfolding generateLink_resume_match [OF m f]
    by (simp add: status_defs button_defs Let_def directLink_def js_def)
  have tr: "trim ?s = ?s" by (simp add: trim_def js_def isWhiteSpace_def)
  have r: "reachable ?st"
    by (intro reachable.typed reachable.loaded) (simp add: emptyPage_def)
  then have r': "reachable (run_until 1200 (generateLink ?st))"
    by (intro reachable.elapse reachable.generate)
  have i: "\<not> generationPending ?st" "now ?st = 0" "driveLinkInput_value ?st = ?s"
    by (simp_all add: generationPending_def onDOMContentLoaded_def applySavedTheme_def
        toggleCopyButtonState_def Let_def emptyPage_def)
  have nb: "trim (driveLinkInput_value ?st) \<noteq> []" by (simp add: tr) (simp add: js_def)
  from generateLink_runs_to_completion [OF reachable_timersOk [OF r] i(1) nb]
  have "outputLinkInput_value (run_until 1200 (generateLink ?st)) = generated ?s"
    by (simp add: finished_def i tr)
  also have "\<dots> = directLink (js ''XyZ789_-'')" using m f by (rule generated_match)
  finally have o3: "outputLinkInput_value (run_until 1200 (generateLink ?st)) =
      js ''https://drive.google.com/uc?export=download&id=XyZ789_-''"
    by (simp add: directLink_def js_def)
  then have o3': "outputLinkInput_value (run_until 1200 (generateLink ?st)) \<noteq> []"
    by (simp add: js_def)
  from copyButton_after_output_mutation [of emptyPage ?s emptyPage "run_until 1200 (generateLink ?st)"]
    o1 o2 o3 o3' r'
  show ?thesis by (simp add: copyButtonReflectsOutput_def)
qed

section \<open>Copy to clipboard\<close>



section \<open>Theme\<close>

text \<open>
  Claim C7. The user sets the toggle to \<open>c\<close> (checked for dark); \<open>applySavedTheme\<close>, run
  on any page whose local storage is the one the listener left (the page after a reload),
  gives the body the dark theme exactly when \<open>c\<close> is checked and sets the toggle to \<open>c\<close>.
  And when local storage holds no theme, or any text but \<open>dark\<close>, \<open>applySavedTheme\<close>
  removes the dark theme and unchecks the toggle.
\<close>

theorem theme_round_trip:
  "(localStorage st' = localStorage (userSetsThemeToggle c st) \<longrightarrow>
      body_darkTheme (applySavedTheme st') = c \<and> themeToggle_checked (applySavedTheme st') = c) \<and>
   (localStorage st0 (js ''theme'') \<noteq> Some (js ''dark'') \<longrightarrow>
      \<not> body_darkTheme (applySavedTheme st0) \<and> \<not> themeToggle_checked (applySavedTheme st0))"
  by (auto simp add: applySavedTheme_def userSetsThemeToggle_def themeToggle_change_def js_def Let_def)

text \<open>
  Claim C7 for dark and for light, for the stored text \<open>Dark\<close>, and for an empty local
  storage; the last three on a page that shows the dark theme with the toggle checked.
\<close>

theorem theme_round_trip_witness:
  "body_darkTheme (applySavedTheme (emptyPage\<lparr>localStorage := localStorage (userSetsThemeToggle True emptyPage)\<rparr>)) \<and>
   themeToggle_checked (applySavedTheme (emptyPage\<lparr>localStorage := localStorage (userSetsThemeToggle True emptyPage)\<rparr>)) \<and>
   \<not> body_darkTheme (applySavedTheme (emptyPage\<lparr>themeToggle_checked := True, body_darkTheme := True,
        localStorage := localStorage (userSetsThemeToggle False emptyPage)\<rparr>)) \<and>
   \<not> themeToggle_checked (applySavedTheme (emptyPage\<lparr>themeToggle_checked := True, body_darkTheme := True,
        localStorage := localStorage (userSetsThemeToggle False emptyPage)\<rparr>)) \<and>
   \<not> body_darkTheme (applySavedTheme (emptyPage\<lparr>themeToggle_checked := True, body_darkTheme := True,
        localStorage := [js ''theme'' \<mapsto> js ''Dark'']\<rparr>)) \<and>
   \<not> themeToggle_checked (applySavedTheme (emptyPage\<lparr>themeToggle_checked := True, body_darkTheme := True\<rparr>))"
proof -
  let ?a = "emptyPage\<lparr>localStorage := localStorage (userSetsThemeToggle True emptyPage)\<rparr>"
  let ?b = "emptyPage\<lparr>themeToggle_checked := True, body_darkTheme := True,
        localStorage := localStorage (userSetsThemeToggle False emptyPage)\<rparr>"
  let ?c = "emptyPage\<lparr>themeToggle_checked := True, body_darkTheme := True,
        localStorage := [js ''theme'' \<mapsto> js ''Dark'']\<rparr>"
  let ?d = "emptyPage\<lparr>themeToggle_checked := True, body_darkTheme := True\<rparr>"
  have c: "localStorage ?c (js ''theme'') \<noteq> Some (js ''dark'')" by (simp add: js_def)
  have d: "localStorage ?d (js ''theme'') \<noteq> Some (js ''dark'')" by (simp add: emptyPage_def)
  from theme_round_trip [of ?a True emptyPage ?c] theme_round_trip [of ?b False emptyPage ?d] c d
  show ?thesis by simp
qed

section \<open>What the match accepts\<close>

text \<open>
  Claim C9. Wherever one of the recognized prefixes stands in the text up to the case of
  its letters, it does not stand there exactly (some letter of it is in upper case). Then
  the match is \<open>null\<close>.
\<close>

theorem match_case_sensitive:
  assumes "\<forall>t\<in>set (suffixes s). \<forall>p\<in>set linkPrefixes. ciPrefix p t \<longrightarrow> \<not> prefix p t"
  shows "regex_exec driveLinkRegex s = None"
  using assms by (rule regex_exec_case_sensitive)

text \<open>
  Claim C9 at \<open>HTTPS://DRIVE.GOOGLE.COM/FILE/D/abc123\<close>, where the first prefix stands at
  the start up to case and not exactly.
\<close>

theorem match_case_sensitive_witness:
  "ciPrefix (js ''https://drive.google.com/file/d/'') (js ''HTTPS://DRIVE.GOOGLE.COM/FILE/D/abc123'') \<and>
   \<not> prefix (js ''https://drive.google.com/file/d/'') (js ''HTTPS://DRIVE.GOOGLE.COM/FILE/D/abc123'') \<and>
   regex_exec driveLinkRegex (js ''HTTPS://DRIVE.GOOGLE.COM/FILE/D/abc123'') = None"
proof -
  let ?s = "js ''HTTPS://DRIVE.GOOGLE.COM/FILE/D/abc123''"
  have noh: "of_char CHR ''h'' \<notin> set ?s" by (simp add: js_def)
  have h: "\<forall>t\<in>set (suffixes ?s). \<forall>p\<in>set linkPrefixes. ciPrefix p t \<longrightarrow> \<not> prefix p t"
  proof (intro ballI impI notI)
    fix t p assume t: "t \<in> set (suffixes ?s)" and p: "p \<in> set linkPrefixes" and pt: "prefix p t"
    from p linkPrefixes_head have "p \<noteq> []" "hd p = of_char CHR ''h''"
      by (auto simp: list_all_iff)
    then have "of_char CHR ''h'' \<in> set p" by (metis hd_in_set)
    moreover from pt have "set p \<subseteq> set t" by (rule set_mono_prefix)
    moreover from t have "set t \<subseteq> set ?s" by (auto simp: in_set_suffixes dest: set_mono_suffix)
    ultimately show False using noh by blast
  qed
  have c: "ciPrefix (js ''https://drive.google.com/file/d/'') ?s"
    by (simp add: ciPrefix_def js_def toLowerASCII_def)
  have n: "\<not> prefix (js ''https://drive.google.com/file/d/'') ?s"
    by (simp add: js_def)
  from match_case_sensitive [OF h] c n show ?thesis by simp
qed

text \<open>
  Claim C10. For every text \<open>fid\<close> of characters of the class, the match on the link that
  \<open>generateLink\<close> produces for \<open>fid\<close> is \<open>null\<close>, also after trimming; so the
  continuation of \<open>generateLink\<close>, run on a produced link, shows the status about the
  link format and writes no output value.
\<close>

theorem directLink_not_recognized:
  assumes "\<forall>c\<in>set fid. idchar c"
  shows "regex_exec driveLinkRegex (directLink fid) = None \<and>
         regex_exec driveLinkRegex (trim (directLink fid)) = None \<and>
         (\<forall>st. outputLinkInput_value (generateLink_resume (trim (directLink fid)) st) = outputLinkInput_value st \<and>
               statusMessage_textContent (generateLink_resume (trim (directLink fid)) st) =
                 js ''Invalid Google Drive link format. Please ensure it's a valid file link.'')"
proof -
  have n: "regex_exec driveLinkRegex (trim (directLink fid)) = None"
    using assms by (simp add: regex_exec_trim regex_exec_directLink)
  have "outputLinkInput_value (generateLink_resume (trim (directLink fid)) st) = outputLinkInput_value st \<and>
               statusMessage_textContent (generateLink_resume (trim (directLink fid)) st) =
                 js ''Invalid Google Drive link format. Please ensure it's a valid file link.''" for st
    unfolding generateLink_resume_nomatch [OF n]
    by (simp add: status_defs button_defs Let_def)
  with n regex_exec_directLink [OF assms] show ?thesis by blast
qed

text \<open>
  Claim C10 at the identifier \<open>1A2b_3C-xyz\<close>: the share link yields it, the link produced
  for it yields nothing.
\<close>

theorem directLink_not_recognized_witness:
  "regex_exec driveLinkRegex (js ''https://drive.google.com/file/d/1A2b_3C-xyz/view?usp=sharing'') =
     Some (js ''https://drive.google.com/file/d/1A2b_3C-xyz'', Some (js ''1A2b_3C-xyz'')) \<and>
   regex_exec driveLinkRegex (js ''https://drive.google.com/uc?export=download&id=1A2b_3C-xyz'') = None"
proof -
  have h: "\<forall>c\<in>set (js ''1A2b_3C-xyz''). idchar c"
    by (simp add: js_def idchar_def inClass_def fileIdClass_def)
  have "regex_exec driveLinkRegex (js ''https://drive.google.com/file/d/1A2b_3C-xyz/view?usp=sharing'') =
     Some (js ''https://drive.google.com/file/d/1A2b_3C-xyz'', Some (js ''1A2b_3C-xyz''))"
    by code_simp
  moreover have "directLink (js ''1A2b_3C-xyz'') = js ''https://drive.google.com/uc?export=download&id=1A2b_3C-xyz''"
    by (simp add: directLink_def js_def)
  ultimately show ?thesis using directLink_not_recognized [OF h] by simp
qed

section \<open>The status message and its timers\<close>

text \<open>
  While the timer whose identifier \<open>displayStatusMessage\<close> has stored is pending, the
  next call removes it: after the call no timer has that identifier.
\<close>

lemma displayStatusMessage_cancels_stored:
  assumes "statusMessageTimeoutId st = Some i" and "i < nextTimerId st"
  shows "\<forall>t\<in>set (timers (displayStatusMessage m ty st)). fst t \<noteq> i"
  using assms by (auto simp: status_defs)

text \<open>
  Claim C2 does not hold of the script in the 400 ms after the first timer has fired. The
  user clicks copy on the loaded page at time 0 and generate, with the input empty, at
  5100 ms. By then the first timer of the copy status (5000 ms) has fired and has
  registered the second (due at 5400 ms), whose identifier is stored nowhere; the call
  for the new status cancels nothing, so two dismissal timers are pending, and at 5400 ms
  the old one clears the new status, 300 ms after it was shown.
\<close>

theorem displayStatusMessage_clear_timer_survives:
  "(let st1 = copyToClipboard Copied (onDOMContentLoaded emptyPage);
        st2 = run_until 5100 st1;
        st3 = generateLink st2;
        st4 = run_until 5400 st3
    in statusMessage_textContent st1 = js ''No link to copy!'' \<and>
       timers st1 = [(1, 5000, DismissStatus)] \<and>
       now st2 = 5100 \<and> timers st2 = [(2, 5400, ClearStatus)] \<and>
       statusMessage_textContent st3 = js ''Please enter a Google Drive link.'' \<and>
       statusMessage_show st3 \<and>
       timers st3 = [(2, 5400, ClearStatus), (3, 10100, DismissStatus)] \<and>
       now st4 = 5400 \<and> statusMessage_show st4 \<and>
       statusMessage_textContent st4 = [] \<and> statusMessage_dataType st4 = None \<and>
       statusMessage_display st4 = js ''none'' \<and>
       timers st4 = [(3, 10100, DismissStatus)])"
  by (simp add: Let_def copyToClipboard_def generateLink_def trim_def status_defs button_defs
      onDOMContentLoaded_def applySavedTheme_def emptyPage_def run_until.simps)

end
